theory Spec2Isabelle
  imports Main "HOL-Library.AList"
begin

section \<open>Python values used by \<open>langflow/graph/graph/base.py\<close>\<close>

text \<open>
  Exceptions are values. The constructor is the Python exception class, the string its
  message (for \<open>KeyError\<close> and \<open>AttributeError\<close>: the key or attribute that is missing).
\<close>

datatype error =
    ValueError string
  | KeyError string
  | AttributeError string
  | TypeError string
  | IndexError string

text \<open>
  Strings are lists of characters with code points below 256. \<open>str_repr\<close> is Python's
  \<open>repr\<close> of a \<open>str\<close> on that range: single quotes unless the string holds a single quote
  and no double quote; the quote, the backslash, tab, newline and carriage return are
  escaped; every other non-printable character is written \<open>\xhh\<close>.
\<close>

definition hex_digit :: "nat \<Rightarrow> char" where
  "hex_digit d = (''0123456789abcdef'' ! (d mod 16))"

definition hex_escape :: "char \<Rightarrow> string" where
  "hex_escape c =
     [CHR 0x5C, CHR ''x'', hex_digit (of_char c div 16), hex_digit (of_char c mod 16)]"

definition printable :: "char \<Rightarrow> bool" where
  "printable c =
     (let n = (of_char c :: nat)
      in (32 \<le> n \<and> n < 127) \<or> (161 \<le> n \<and> n \<noteq> 173))"

definition repr_quote :: "string \<Rightarrow> char" where
  "repr_quote s =
     (if CHR 0x27 \<in> set s \<and> CHR 0x22 \<notin> set s then CHR 0x22 else CHR 0x27)"

definition repr_char :: "char \<Rightarrow> char \<Rightarrow> string" where
  "repr_char q c =
     (if c = q \<or> c = CHR 0x5C then [CHR 0x5C, c]
      else if c = CHR 0x09 then [CHR 0x5C, CHR ''t'']
      else if c = CHR 0x0A then [CHR 0x5C, CHR ''n'']
      else if c = CHR 0x0D then [CHR 0x5C, CHR ''r'']
      else if printable c then [c]
      else hex_escape c)"

definition str_repr :: "string \<Rightarrow> string" where
  "str_repr s = (let q = repr_quote s in [q] @ concat (map (repr_char q) s) @ [q])"

fun join :: "string \<Rightarrow> string list \<Rightarrow> string" where
  "join sep [] = []"
| "join sep [x] = x"
| "join sep (x # y # ys) = x @ sep @ join sep (y # ys)"

definition list_repr :: "string list \<Rightarrow> string" where
  "list_repr xs = ''['' @ join '', '' (map str_repr xs) @ '']''"

text \<open>\<open>s.split(sep)\<close> for a separator of one character: never the empty list.\<close>

fun str_split :: "char \<Rightarrow> string \<Rightarrow> string list" where
  "str_split sep [] = [[]]"
| "str_split sep (c # cs) =
     (if c = sep then [] # str_split sep cs
      else (case str_split sep cs of
              [] \<Rightarrow> [[c]]
            | w # ws \<Rightarrow> (c # w) # ws))"

text \<open>\<open>xs[0]\<close>: raises \<open>IndexError\<close> on the empty list.\<close>

definition first_item :: "'a list \<Rightarrow> error + 'a" where
  "first_item xs = (case xs of [] \<Rightarrow> Inl (IndexError ''list index out of range'') | x # _ \<Rightarrow> Inr x)"

section \<open>Raw input records\<close>

text \<open>
  A raw node is a dictionary; the constructor reads \<open>node["id"]\<close>, \<open>node["data"]["type"]\<close>
  and \<open>node["data"]["node"]["template"]["_type"]\<close>. Each level is a record whose fields
  are the keys read; a key that is absent is \<open>None\<close>, and subscripting it raises
  \<open>KeyError\<close>.
\<close>

record raw_template =
  t_type :: "string option"

record raw_node_info =
  n_template :: "raw_template option"

record raw_node_data =
  d_type :: "string option"
  d_node :: "raw_node_info option"

record raw_node =
  n_id :: "string option"
  n_data :: "raw_node_data option"

text \<open>A raw edge is a \<open>Dict[str, str]\<close>: an association list, read with \<open>map_of\<close>.\<close>

type_synonym raw_edge = "(string \<times> string) list"

definition subscript :: "(string \<times> 'a) list \<Rightarrow> string \<Rightarrow> error + 'a" where
  "subscript d k = (case map_of d k of None \<Rightarrow> Inl (KeyError k) | Some v \<Rightarrow> Inr v)"

definition field :: "'a option \<Rightarrow> string \<Rightarrow> error + 'a" where
  "field v k = (case v of None \<Rightarrow> Inl (KeyError k) | Some x \<Rightarrow> Inr x)"

section \<open>Vertices, edges and the graph object\<close>

text \<open>
  Vertex objects are shared and mutated in place (edges hold their endpoints, a toolkit
  vertex holds the LLM vertex), so a vertex is referred to by its address: its index in
  the graph's vertex collection, which \<open>_build_vertices\<close> fills in creation order.
  Comparing two vertex objects compares their addresses; on a constructed graph that is
  the same as comparing their identifiers (\<open>constructed_distinct_ids\<close> below).
\<close>

type_synonym ref = nat

datatype vertex_class =
    Vertex
  | FileToolVertex
  | LLMVertex
  | ToolkitVertex
  | RegisteredVertex string

datatype param_value = VertexRef ref | Opaque string

record edge =
  source :: ref
  target :: ref
  raw :: raw_edge

record vertex =
  vid :: string
  vertex_type :: string
  vclass :: vertex_class
  is_top_level :: bool
  vedges :: "edge list"
  params :: "(string \<times> param_value) list"
  params_built :: nat
  layer :: "nat option"

record graph =
  raw_nodes :: "raw_node list"
  raw_edges :: "raw_edge list"
  top_level_nodes :: "string list"
  vertices :: "vertex list"
  edges :: "edge list"

text \<open>
  The collaborators imported by \<open>base.py\<close> and not defined there: the flow normalizer
  \<open>process_flow\<close>, the registry \<open>lazy_load_vertex_dict.VERTEX_TYPE_MAP\<close>, the constant
  \<open>FILE_TOOLS\<close> and the parameters computed by \<open>Vertex._build_params\<close>.
\<close>

record env =
  process_flow :: "raw_node list \<times> raw_edge list \<Rightarrow> raw_node list \<times> raw_edge list"
  VERTEX_TYPE_MAP :: "(string \<times> vertex_class) list"
  FILE_TOOLS :: "string list"
  compute_params :: "vertex \<Rightarrow> (string \<times> param_value) list"

text \<open>
  Modelled from the spec: the constructor of \<open>Vertex\<close> and of its subclasses
  (\<open>langflow/graph/vertex/base.py\<close>, \<open>vertex/types.py\<close>) is not part of \<open>base.py\<close>. A
  vertex wraps its raw record: it takes the record's identifier and declared type, has no
  incident edge, no parameters and no layer yet.
\<close>

definition new_vertex :: "vertex_class \<Rightarrow> string \<Rightarrow> string \<Rightarrow> vertex" where
  "new_vertex c node_id node_type =
     \<lparr>vid = node_id, vertex_type = node_type, vclass = c, is_top_level = False,
      vedges = [], params = [], params_built = 0, layer = None\<rparr>"

text \<open>
  Modelled from the spec: \<open>Vertex.set_top_level\<close> is missing; a vertex is top-level when
  its identifier appears in the original, unnormalized node list.
\<close>

definition set_top_level :: "string list \<Rightarrow> vertex \<Rightarrow> vertex" where
  "set_top_level top_level v = v\<lparr>is_top_level := (vid v \<in> set top_level)\<rparr>"

text \<open>
  Modelled from the spec: \<open>Vertex.add_edge\<close> is missing; the incident edges of a vertex
  are append-only and an edge is registered on both its endpoints.
\<close>

definition add_edge :: "edge \<Rightarrow> vertex \<Rightarrow> vertex" where
  "add_edge e v = v\<lparr>vedges := vedges v @ [e]\<rparr>"

text \<open>
  Modelled from the spec: \<open>Vertex._build_params\<close> is missing; it is the per-vertex local
  parameter preparation. It replaces the vertex's parameters by the ones the collaborator
  computes; \<open>params_built\<close> counts how often it ran on the vertex.
\<close>

definition Vertex_build_params :: "env \<Rightarrow> vertex \<Rightarrow> vertex" where
  "Vertex_build_params env v =
     v\<lparr>params := compute_params env v, params_built := Suc (params_built v)\<rparr>"

text \<open>
  Modelled from the spec: the constructor of \<open>ContractEdge\<close>
  (\<open>langflow/graph/edge/base.py\<close>) is missing; an edge is the ordered pair of its
  endpoints with the raw connection record.
\<close>

definition ContractEdge :: "ref \<Rightarrow> ref \<Rightarrow> raw_edge \<Rightarrow> edge" where
  "ContractEdge s t r = \<lparr>source = s, target = t, raw = r\<rparr>"

text \<open>
  \<open>isinstance(node, C)\<close> for the two classes \<open>_build_node_params\<close> asks about; neither
  has a subclass in the registry.
\<close>

definition isinstance :: "vertex \<Rightarrow> vertex_class \<Rightarrow> bool" where
  "isinstance v c = (vclass v = c)"

section \<open>The vertex-type resolver\<close>

definition get_vertex_class :: "env \<Rightarrow> string \<Rightarrow> string \<Rightarrow> string \<Rightarrow> error + vertex_class" where
  "get_vertex_class env node_type node_lc_type node_id =
     (case first_item (str_split CHR ''-'' node_id) of
        Inl e \<Rightarrow> Inl e
      | Inr node_name \<Rightarrow>
          (case map_of (VERTEX_TYPE_MAP env) node_name of
             Some c \<Rightarrow> Inr c
           | None \<Rightarrow>
               if node_type \<in> set (FILE_TOOLS env) then Inr FileToolVertex
               else (case map_of (VERTEX_TYPE_MAP env) node_type of
                       Some c \<Rightarrow> Inr c
                     | None \<Rightarrow>
                         (case map_of (VERTEX_TYPE_MAP env) node_lc_type of
                            Some c \<Rightarrow> Inr c
                          | None \<Rightarrow> Inr Vertex))))"

section \<open>Graph construction\<close>

text \<open>\<open>get_vertex\<close>: the first vertex of the collection whose identifier is \<open>node_id\<close>.\<close>

definition get_vertex :: "vertex list \<Rightarrow> string \<Rightarrow> ref option" where
  "get_vertex vs node_id = List.find (\<lambda>i. vid (vs ! i) = node_id) [0..<length vs]"

text \<open>The body of the loop of \<open>_build_vertices\<close>, for one raw node.\<close>

definition build_vertex :: "env \<Rightarrow> string list \<Rightarrow> raw_node \<Rightarrow> error + vertex" where
  "build_vertex env top_level node =
     (case field (n_data node) ''data'' of Inl e \<Rightarrow> Inl e | Inr node_data \<Rightarrow>
      case field (d_type node_data) ''type'' of Inl e \<Rightarrow> Inl e | Inr node_type \<Rightarrow>
      case field (d_node node_data) ''node'' of Inl e \<Rightarrow> Inl e | Inr info \<Rightarrow>
      case field (n_template info) ''template'' of Inl e \<Rightarrow> Inl e | Inr template \<Rightarrow>
      case field (t_type template) ''_type'' of Inl e \<Rightarrow> Inl e | Inr node_lc_type \<Rightarrow>
      case field (n_id node) ''id'' of Inl e \<Rightarrow> Inl e | Inr node_id \<Rightarrow>
      case get_vertex_class env node_type node_lc_type node_id of Inl e \<Rightarrow> Inl e
      | Inr VertexClass \<Rightarrow> Inr (set_top_level top_level (new_vertex VertexClass node_id node_type)))"

fun build_vertices_loop :: "env \<Rightarrow> string list \<Rightarrow> raw_node list \<Rightarrow> vertex list \<Rightarrow> error + vertex list" where
  "build_vertices_loop env top_level [] nodes = Inr nodes"
| "build_vertices_loop env top_level (node # rest) nodes =
     (case build_vertex env top_level node of
        Inl e \<Rightarrow> Inl e
      | Inr vertex \<Rightarrow> build_vertices_loop env top_level rest (nodes @ [vertex]))"

definition build_vertices :: "env \<Rightarrow> string list \<Rightarrow> raw_node list \<Rightarrow> error + vertex list" where
  "build_vertices env top_level nodes = build_vertices_loop env top_level nodes []"

text \<open>The body of the loop of \<open>_build_edges\<close>, for one raw edge.\<close>

definition build_edge :: "vertex list \<Rightarrow> raw_edge \<Rightarrow> error + edge" where
  "build_edge vs e =
     (case subscript e ''source'' of Inl err \<Rightarrow> Inl err | Inr s \<Rightarrow>
      case subscript e ''target'' of Inl err \<Rightarrow> Inl err | Inr t \<Rightarrow>
      case get_vertex vs s of
        None \<Rightarrow> Inl (ValueError (''Source node '' @ s @ '' not found''))
      | Some src \<Rightarrow>
          (case get_vertex vs t of
             None \<Rightarrow> Inl (ValueError (''Target node '' @ t @ '' not found''))
           | Some tgt \<Rightarrow> Inr (ContractEdge src tgt e)))"

fun build_edges_loop :: "vertex list \<Rightarrow> raw_edge list \<Rightarrow> edge list \<Rightarrow> error + edge list" where
  "build_edges_loop vs [] acc = Inr acc"
| "build_edges_loop vs (e # rest) acc =
     (case build_edge vs e of
        Inl err \<Rightarrow> Inl err
      | Inr ce \<Rightarrow> build_edges_loop vs rest (acc @ [ce]))"

definition build_edges :: "vertex list \<Rightarrow> raw_edge list \<Rightarrow> error + edge list" where
  "build_edges vs es = build_edges_loop vs es []"

text \<open>
  The registration loop of \<open>_build_graph\<close>: \<open>edge.source.add_edge(edge)\<close>, then
  \<open>edge.target.add_edge(edge)\<close>, on the vertex objects at these addresses.
\<close>

definition update_at :: "ref \<Rightarrow> (vertex \<Rightarrow> vertex) \<Rightarrow> vertex list \<Rightarrow> vertex list" where
  "update_at r f vs = (if r < length vs then vs[r := f (vs ! r)] else vs)"

fun register_edges :: "edge list \<Rightarrow> vertex list \<Rightarrow> vertex list" where
  "register_edges [] vs = vs"
| "register_edges (e # es) vs =
     register_edges es (update_at (target e) (add_edge e) (update_at (source e) (add_edge e) vs))"

text \<open>
  \<open>_build_node_params\<close>. The first loop runs over the addresses in collection order and
  keeps the last LLM vertex met; the second stores that address under \<open>"llm"\<close> in every
  toolkit vertex.
\<close>

fun build_params_loop :: "env \<Rightarrow> ref list \<Rightarrow> vertex list \<times> ref option \<Rightarrow> vertex list \<times> ref option" where
  "build_params_loop env [] (vs, llm_node) = (vs, llm_node)"
| "build_params_loop env (node # rest) (vs, llm_node) =
     (let vs' = update_at node (Vertex_build_params env) vs
      in build_params_loop env rest
           (vs', if isinstance (vs' ! node) LLMVertex then Some node else llm_node))"

definition set_llm :: "ref \<Rightarrow> vertex \<Rightarrow> vertex" where
  "set_llm llm_node v =
     (if isinstance v ToolkitVertex
      then v\<lparr>params := AList.update ''llm'' (VertexRef llm_node) (params v)\<rparr>
      else v)"

definition build_node_params :: "env \<Rightarrow> vertex list \<Rightarrow> vertex list" where
  "build_node_params env vs =
     (case build_params_loop env [0..<length vs] (vs, None) of
        (vs', None) \<Rightarrow> vs'
      | (vs', Some llm_node) \<Rightarrow> map (set_llm llm_node) vs')"

text \<open>\<open>_validate_node\<close> and \<open>_validate_nodes\<close>.\<close>

definition validate_node :: "vertex \<Rightarrow> bool" where
  "validate_node node = (length (vedges node) > 0)"

fun validate_loop :: "vertex list \<Rightarrow> error + unit" where
  "validate_loop [] = Inr ()"
| "validate_loop (node # rest) =
     (if \<not> validate_node node
      then Inl (ValueError (vertex_type node @ '' is not connected to any other components''))
      else validate_loop rest)"

definition validate_nodes :: "vertex list \<Rightarrow> error + unit" where
  "validate_nodes vs = (if length vs = 1 then Inr () else validate_loop vs)"

text \<open>\<open>_build_graph\<close> and \<open>__init__\<close>.\<close>

definition build_graph :: "env \<Rightarrow> string list \<Rightarrow> raw_node list \<Rightarrow> raw_edge list \<Rightarrow> error + graph" where
  "build_graph env top_level nodes es =
     (case build_vertices env top_level nodes of
        Inl e \<Rightarrow> Inl e
      | Inr vs \<Rightarrow>
          (case build_edges vs es of
             Inl e \<Rightarrow> Inl e
           | Inr ces \<Rightarrow>
               (case validate_nodes (build_node_params env (register_edges ces vs)) of
                  Inl e \<Rightarrow> Inl e
                | Inr u \<Rightarrow>
                    Inr \<lparr>raw_nodes = nodes, raw_edges = es, top_level_nodes = top_level,
                         vertices = build_node_params env (register_edges ces vs),
                         edges = ces\<rparr>)))"

definition top_level_ids :: "raw_node list \<Rightarrow> string list" where
  "top_level_ids nodes =
     concat (map (\<lambda>node. case n_id node of
                            None \<Rightarrow> []
                          | Some node_id \<Rightarrow> if node_id \<noteq> [] then [node_id] else []) nodes)"

definition Graph_init :: "env \<Rightarrow> raw_node list \<Rightarrow> raw_edge list \<Rightarrow> error + graph" where
  "Graph_init env nodes es =
     (case process_flow env (nodes, es) of
        (nodes', es') \<Rightarrow> build_graph env (top_level_ids nodes) nodes' es')"

section \<open>Payloads\<close>

text \<open>
  A payload is a dictionary (keys in insertion order). Its values are the node list, the
  edge list, a nested dictionary, or another value that a string cannot subscript
  (\<open>None\<close>, a boolean, a number); that one carries the name of its Python type.
\<close>

datatype pvalue =
    NodeList "raw_node list"
  | EdgeList "raw_edge list"
  | Dict "(string \<times> pvalue) list"
  | Other string

text \<open>The \<open>TypeError\<close> of \<open>value["nodes"]\<close> on a value that is no dictionary.\<close>

definition not_subscriptable :: "pvalue \<Rightarrow> error" where
  "not_subscriptable v =
     (case v of
        Other type_name \<Rightarrow>
          TypeError ([CHR 0x27] @ type_name @ [CHR 0x27] @ '' object is not subscriptable'')
      | _ \<Rightarrow> TypeError ''list indices must be integers or slices, not str'')"

definition keys :: "(string \<times> 'a) list \<Rightarrow> string list" where
  "keys d = map fst d"

text \<open>
  \<open>from_payload\<close>, with the class \<open>cls\<close> it is called on as its first argument;
  \<open>unwrap\<close> is its first statement, \<open>if "data" in payload: payload = payload["data"]\<close>. A
  \<open>KeyError\<close> raised inside the \<open>try\<close> block is turned into the \<open>ValueError\<close> that lists
  the keys of the (unwrapped) payload; subscripting a value that is no dictionary raises
  \<open>TypeError\<close>, which the \<open>except KeyError\<close> clause lets pass.
\<close>

definition invalid_payload :: "string list \<Rightarrow> error" where
  "invalid_payload ks =
     ValueError (''Invalid payload. Expected keys '' @ [CHR 0x27] @ ''nodes'' @ [CHR 0x27]
                 @ '' and '' @ [CHR 0x27] @ ''edges'' @ [CHR 0x27] @ ''. Found '' @ list_repr ks)"

definition unwrap :: "(string \<times> pvalue) list \<Rightarrow> pvalue" where
  "unwrap payload = (case map_of payload ''data'' of None \<Rightarrow> Dict payload | Some inner \<Rightarrow> inner)"

definition from_payload ::
  "(pvalue \<Rightarrow> pvalue \<Rightarrow> error + 'g) \<Rightarrow> (string \<times> pvalue) list \<Rightarrow> error + 'g" where
  "from_payload cls payload =
     (case unwrap payload of
        Dict payload' \<Rightarrow>
          (case map_of payload' ''nodes'' of
             None \<Rightarrow> Inl (invalid_payload (keys payload'))
           | Some nodes \<Rightarrow>
               (case map_of payload' ''edges'' of
                  None \<Rightarrow> Inl (invalid_payload (keys payload'))
                | Some es \<Rightarrow>
                    (case cls nodes es of
                       Inl (KeyError k) \<Rightarrow> Inl (invalid_payload (keys payload'))
                     | r \<Rightarrow> r)))
      | v \<Rightarrow> Inl (not_subscriptable v))"

text \<open>
  The class \<open>Graph\<close> as \<open>cls\<close>: the constructor is annotated \<open>List[Dict]\<close>,
  \<open>List[Dict[str, str]]\<close>; values of another shape are outside these types.
\<close>

definition Graph_cls :: "env \<Rightarrow> pvalue \<Rightarrow> pvalue \<Rightarrow> error + graph" where
  "Graph_cls env nodes es =
     (case (nodes, es) of
        (NodeList ns, EdgeList rs) \<Rightarrow> Graph_init env ns rs
      | _ \<Rightarrow> Inl (TypeError ''nodes and edges must be lists of dictionaries''))"

section \<open>Textual representation and equality\<close>

definition edge_line :: "vertex list \<Rightarrow> edge \<Rightarrow> string" where
  "edge_line vs e = vid (vs ! source e) @ '' --> '' @ vid (vs ! target e)"

definition Graph_repr :: "graph \<Rightarrow> string" where
  "Graph_repr g =
     ''Graph:'' @ [CHR 0x0A] @ ''Nodes: '' @ list_repr (map vid (vertices g)) @ [CHR 0x0A]
     @ ''Connections:'' @ [CHR 0x0A]
     @ join [CHR 0x0A] (map (edge_line (vertices g)) (edges g))"

datatype pyobject = GraphObject graph | OtherObject

definition Graph_eq :: "graph \<Rightarrow> pyobject \<Rightarrow> bool" where
  "Graph_eq self other =
     (case other of
        GraphObject g \<Rightarrow> Graph_repr self = Graph_repr g
      | OtherObject \<Rightarrow> False)"

section \<open>Topological sort\<close>

text \<open>
  The local variables of \<open>topological_sort\<close> that the nested \<open>dfs\<close> mutates: the
  dictionary \<open>state\<close> (0 = unvisited, 1 = visiting, 2 = visited), keyed by vertex, and the
  list \<open>sorted_vertices\<close>.
\<close>

record dfs_state =
  state :: "ref \<rightharpoonup> nat"
  sorted_vertices :: "ref list"

definition cycle_error :: error where
  "cycle_error = ValueError ''Graph contains a cycle, cannot perform topological sort''"

text \<open>
  \<open>node.edges\<close>. An address outside the collection is the address of no vertex object;
  no state of the program holds one (\<open>constructed_valid\<close> below).
\<close>

definition Vertex_edges :: "vertex list \<Rightarrow> ref \<Rightarrow> error + edge list" where
  "Vertex_edges vs node =
     (if node < length vs then Inr (vedges (vs ! node)) else Inl (AttributeError ''edges''))"

text \<open>
  The nested function \<open>dfs\<close>; \<open>dfs_edges\<close> is its loop \<open>for edge in node.edges\<close>. An
  exception leaves both at once.
\<close>

function dfs :: "vertex list \<Rightarrow> ref \<Rightarrow> dfs_state \<Rightarrow> error + dfs_state"
  and dfs_edges :: "vertex list \<Rightarrow> ref \<Rightarrow> edge list \<Rightarrow> dfs_state \<Rightarrow> error + dfs_state"
where
  "dfs vs node st =
     (case state st node of
        None \<Rightarrow> Inl (KeyError ''node'')
      | Some c \<Rightarrow>
          if c = 1 then Inl cycle_error
          else if c = 0 then
            (case Vertex_edges vs node of
               Inl e \<Rightarrow> Inl e
             | Inr es \<Rightarrow>
                 (case dfs_edges vs node es (st\<lparr>state := (state st)(node \<mapsto> 1)\<rparr>) of
                    Inl e \<Rightarrow> Inl e
                  | Inr st' \<Rightarrow>
                      Inr (st'\<lparr>state := (state st')(node \<mapsto> 2),
                               sorted_vertices := sorted_vertices st' @ [node]\<rparr>)))
          else Inr st)"
| "dfs_edges vs node [] st = Inr st"
| "dfs_edges vs node (e # es) st =
     (if source e = node then
        (case dfs vs (target e) st of
           Inl err \<Rightarrow> Inl err
         | Inr st' \<Rightarrow> dfs_edges vs node es st')
      else dfs_edges vs node es st)"
  by pat_completeness auto

definition unvisited :: "vertex list \<Rightarrow> dfs_state \<Rightarrow> ref set" where
  "unvisited vs st = {i. i < length vs \<and> state st i = Some 0}"

lemma finite_unvisited: "finite (unvisited vs st)"
  by (simp add: unvisited_def)

lemma dfs_unvisited_dom:
  "dfs_dfs_edges_dom (Inl (vs, node, st)) \<Longrightarrow>
     dfs vs node st = Inr st' \<Longrightarrow> unvisited vs st' \<subseteq> unvisited vs st"
  "dfs_dfs_edges_dom (Inr (vs, node, es, st)) \<Longrightarrow>
     dfs_edges vs node es st = Inr st' \<Longrightarrow> unvisited vs st' \<subseteq> unvisited vs st"
proof (induction vs node st and vs node es st arbitrary: st' and st' rule: dfs_dfs_edges.pinduct)
  case (1 vs node st)
  show ?case
  proof (cases "state st node = Some 0")
    case True
    let ?st1 = "st\<lparr>state := (state st)(node \<mapsto> 1)\<rparr>"
    from True "1.prems" "1.hyps" obtain es st2 where
      es: "Vertex_edges vs node = Inr es"
      and r: "dfs_edges vs node es ?st1 = Inr st2"
      and s: "st' = st2\<lparr>state := (state st2)(node \<mapsto> 2),
                         sorted_vertices := sorted_vertices st2 @ [node]\<rparr>"
      by (auto simp: dfs.psimps split: sum.splits)
    have "unvisited vs st2 \<subseteq> unvisited vs ?st1"
      using "1.IH" True es r by simp
    moreover have "unvisited vs ?st1 \<subseteq> unvisited vs st"
      by (auto simp: unvisited_def)
    moreover have "unvisited vs st' \<subseteq> unvisited vs st2"
      by (auto simp: s unvisited_def)
    ultimately show ?thesis by blast
  next
    case False
    with "1.prems" "1.hyps" show ?thesis
      by (auto simp: dfs.psimps split: if_splits option.splits)
  qed
next
  case (2 vs node st)
  then show ?case by (simp add: dfs_edges.psimps)
next
  case (3 vs node e es st)
  show ?case
  proof (cases "source e = node")
    case True
    with "3.prems" "3.hyps" obtain st1 where
      a: "dfs vs (target e) st = Inr st1" and b: "dfs_edges vs node es st1 = Inr st'"
      by (auto simp: dfs_edges.psimps split: sum.splits)
    from "3.IH"(1)[OF True a] "3.IH"(2)[OF True a b] show ?thesis by blast
  next
    case False
    with "3.prems" "3.hyps" "3.IH"(3) show ?thesis
      by (simp add: dfs_edges.psimps)
  qed
qed

termination dfs
proof (relation "measures [\<lambda>x. case x of Inl (vs, node, st) \<Rightarrow> card (unvisited vs st)
                                    | Inr (vs, node, es, st) \<Rightarrow> card (unvisited vs st),
                           \<lambda>x. case x of Inl _ \<Rightarrow> 0
                                    | Inr (vs, node, es, st) \<Rightarrow> Suc (length es)]",
       goal_cases)
  case 1
  then show ?case by simp
next
  case (2 vs node st c es)
  then have "node \<in> unvisited vs st"
    and "unvisited vs (st\<lparr>state := (state st)(node \<mapsto> 1)\<rparr>) \<subseteq> unvisited vs st - {node}"
    by (auto simp: unvisited_def Vertex_edges_def split: if_splits)
  then have "card (unvisited vs (st\<lparr>state := (state st)(node \<mapsto> 1)\<rparr>)) < card (unvisited vs st)"
    by (meson card_Diff1_less card_mono finite_Diff finite_unvisited le_less_trans)
  then show ?case by simp
next
  case (3 vs node e es st)
  then show ?case by simp
next
  case (4 vs node e es st st')
  then have "card (unvisited vs st') \<le> card (unvisited vs st)"
    using dfs_unvisited_dom(1) by (simp add: card_mono finite_unvisited)
  then show ?case by (auto simp: le_less)
next
  case (5 vs node e es st)
  then show ?case by simp
qed

text \<open>
  Attribute lookup on a \<open>Graph\<close> object. Its instance attributes are the ones assigned
  in \<open>__init__\<close> and \<open>_build_graph\<close>; the class defines methods, no property and no
  \<open>__getattr__\<close>. Of these only \<open>vertices\<close> holds the vertex objects; a name that is
  none of them raises \<open>AttributeError\<close>.
\<close>

datatype attribute = VertexList "ref list" | OtherAttribute

definition Graph_attributes :: "string list" where
  "Graph_attributes =
     [''_nodes'', ''_edges'', ''raw_graph_data'', ''top_level_nodes'', ''_graph_data'',
      ''vertices'', ''edges'',
      ''from_payload'', ''build'', ''topological_sort'', ''layered_topological_sort'',
      ''generator_build'', ''get_vertex'', ''get_nodes_with_target'', ''get_node_neighbors'',
      ''get_children_by_node_type'', ''_build_graph'', ''_build_node_params'',
      ''_validate_nodes'', ''_validate_node'', ''_build_edges'', ''_get_vertex_class'',
      ''_build_vertices'']"

definition Graph_getattr :: "graph \<Rightarrow> string \<Rightarrow> error + attribute" where
  "Graph_getattr g name =
     (if name = ''vertices'' then Inr (VertexList [0..<length (vertices g)])
      else if name \<in> set Graph_attributes then Inr OtherAttribute
      else Inl (AttributeError name))"

text \<open>The loop \<open>for node in self.vertices\<close> and \<open>topological_sort\<close> itself.\<close>

fun visit_all :: "vertex list \<Rightarrow> ref list \<Rightarrow> dfs_state \<Rightarrow> error + dfs_state" where
  "visit_all vs [] st = Inr st"
| "visit_all vs (node # rest) st =
     (case state st node of
        None \<Rightarrow> Inl (KeyError ''node'')
      | Some c \<Rightarrow>
          if c = 0 then
            (case dfs vs node st of
               Inl e \<Rightarrow> Inl e
             | Inr st' \<Rightarrow> visit_all vs rest st')
          else visit_all vs rest st)"

definition topological_sort :: "graph \<Rightarrow> error + ref list" where
  "topological_sort g =
     (case Graph_getattr g ''vertices'' of
        Inl e \<Rightarrow> Inl e
      | Inr OtherAttribute \<Rightarrow> Inl (TypeError ''not a collection of vertices'')
      | Inr (VertexList nodes) \<Rightarrow>
          (case visit_all (vertices g) nodes
                  \<lparr>state = map_of (map (\<lambda>node. (node, 0)) nodes), sorted_vertices = []\<rparr> of
             Inl e \<Rightarrow> Inl e
           | Inr st \<Rightarrow> Inr (rev (sorted_vertices st))))"

section \<open>Layered topological sort\<close>

text \<open>
  What the nested \<open>dfs\<close> of \<open>layered_topological_sort\<close> mutates: the dictionary
  \<open>state\<close>, the list \<open>layers\<close>, and the vertex objects (their \<open>layer\<close> attribute).
\<close>

record layered_state =
  lstate :: "ref \<rightharpoonup> nat"
  layers :: "ref list list"
  heap :: "vertex list"

text \<open>\<open>while len(layers) <= current_layer: layers.append([])\<close>\<close>

function pad_layers :: "ref list list \<Rightarrow> nat \<Rightarrow> ref list list" where
  "pad_layers ls current_layer =
     (if length ls \<le> current_layer then pad_layers (ls @ [[]]) current_layer else ls)"
  by pat_completeness auto
termination
  by (relation "measure (\<lambda>(ls, current_layer). Suc current_layer - length ls)") auto

declare pad_layers.simps [simp del]

definition place :: "ref \<Rightarrow> nat \<Rightarrow> layered_state \<Rightarrow> layered_state" where
  "place node current_layer st =
     (let ls = pad_layers (layers st) current_layer
      in st\<lparr>layers := ls[current_layer := ls ! current_layer @ [node]],
            heap := update_at node (\<lambda>v. v\<lparr>layer := Some current_layer\<rparr>) (heap st)\<rparr>)"

function layered_dfs :: "ref \<Rightarrow> nat \<Rightarrow> layered_state \<Rightarrow> error + layered_state"
  and layered_dfs_edges :: "ref \<Rightarrow> nat \<Rightarrow> edge list \<Rightarrow> layered_state \<Rightarrow> error + layered_state"
where
  "layered_dfs node current_layer st =
     (case lstate st node of
        None \<Rightarrow> Inl (KeyError ''node'')
      | Some c \<Rightarrow>
          if c = 1 then Inl cycle_error
          else if c = 0 then
            (case Vertex_edges (heap st) node of
               Inl e \<Rightarrow> Inl e
             | Inr es \<Rightarrow>
                 (case layered_dfs_edges node current_layer es
                         (st\<lparr>lstate := (lstate st)(node \<mapsto> 1)\<rparr>) of
                    Inl e \<Rightarrow> Inl e
                  | Inr st' \<Rightarrow>
                      Inr (place node current_layer (st'\<lparr>lstate := (lstate st')(node \<mapsto> 2)\<rparr>))))
          else Inr st)"
| "layered_dfs_edges node current_layer [] st = Inr st"
| "layered_dfs_edges node current_layer (e # es) st =
     (if source e = node then
        (case layered_dfs (target e) (current_layer + 1) st of
           Inl err \<Rightarrow> Inl err
         | Inr st' \<Rightarrow> layered_dfs_edges node current_layer es st')
      else layered_dfs_edges node current_layer es st)"
  by pat_completeness auto

definition lunvisited :: "layered_state \<Rightarrow> ref set" where
  "lunvisited st = {i. i < length (heap st) \<and> lstate st i = Some 0}"

lemma finite_lunvisited: "finite (lunvisited st)"
  by (simp add: lunvisited_def)

lemma lunvisited_place:
  "lunvisited (place node l (st\<lparr>lstate := (lstate st)(node \<mapsto> 2)\<rparr>)) \<subseteq> lunvisited st"
  "length (heap (place node l st)) = length (heap st)"
  by (auto simp: lunvisited_def place_def Let_def update_at_def)

lemma layered_dfs_unvisited_dom:
  "layered_dfs_layered_dfs_edges_dom (Inl (node, l, st)) \<Longrightarrow>
     layered_dfs node l st = Inr st' \<Longrightarrow>
     length (heap st') = length (heap st) \<and> lunvisited st' \<subseteq> lunvisited st"
  "layered_dfs_layered_dfs_edges_dom (Inr (node, l, es, st)) \<Longrightarrow>
     layered_dfs_edges node l es st = Inr st' \<Longrightarrow>
     length (heap st') = length (heap st) \<and> lunvisited st' \<subseteq> lunvisited st"
proof (induction node l st and node l es st arbitrary: st' and st'
       rule: layered_dfs_layered_dfs_edges.pinduct)
  case (1 node l st)
  show ?case
  proof (cases "lstate st node = Some 0")
    case True
    let ?st1 = "st\<lparr>lstate := (lstate st)(node \<mapsto> 1)\<rparr>"
    from True "1.prems" "1.hyps" obtain es st2 where
      es: "Vertex_edges (heap st) node = Inr es"
      and r: "layered_dfs_edges node l es ?st1 = Inr st2"
      and s: "st' = place node l (st2\<lparr>lstate := (lstate st2)(node \<mapsto> 2)\<rparr>)"
      by (auto simp: layered_dfs.psimps split: sum.splits)
    have a: "length (heap st2) = length (heap ?st1) \<and> lunvisited st2 \<subseteq> lunvisited ?st1"
      using "1.IH" True es r by simp
    have b: "lunvisited ?st1 \<subseteq> lunvisited st"
      by (auto simp: lunvisited_def)
    have c: "lunvisited st' \<subseteq> lunvisited st2"
      unfolding s by (rule lunvisited_place)
    have d: "length (heap st') = length (heap st2)"
      unfolding s by (simp add: lunvisited_place)
    from a b c d show ?thesis by auto
  next
    case False
    with "1.prems" "1.hyps" show ?thesis
      by (auto simp: layered_dfs.psimps split: if_splits option.splits)
  qed
next
  case (2 node l st)
  then show ?case by (simp add: layered_dfs_edges.psimps)
next
  case (3 node l e es st)
  show ?case
  proof (cases "source e = node")
    case True
    with "3.prems" "3.hyps" obtain st1 where
      a: "layered_dfs (target e) (l + 1) st = Inr st1"
      and b: "layered_dfs_edges node l es st1 = Inr st'"
      by (auto simp: layered_dfs_edges.psimps split: sum.splits)
    from "3.IH"(1)[OF True a] "3.IH"(2)[OF True a b] show ?thesis by auto
  next
    case False
    with "3.prems" "3.hyps" "3.IH"(3) show ?thesis
      by (simp add: layered_dfs_edges.psimps)
  qed
qed

termination layered_dfs
proof (relation "measures [\<lambda>x. case x of Inl (node, l, st) \<Rightarrow> card (lunvisited st)
                                    | Inr (node, l, es, st) \<Rightarrow> card (lunvisited st),
                           \<lambda>x. case x of Inl _ \<Rightarrow> 0
                                    | Inr (node, l, es, st) \<Rightarrow> Suc (length es)]",
       goal_cases)
  case 1
  then show ?case by simp
next
  case (2 node l st c es)
  then have "node \<in> lunvisited st"
    and "lunvisited (st\<lparr>lstate := (lstate st)(node \<mapsto> 1)\<rparr>) \<subseteq> lunvisited st - {node}"
    by (auto simp: lunvisited_def Vertex_edges_def split: if_splits)
  then have "card (lunvisited (st\<lparr>lstate := (lstate st)(node \<mapsto> 1)\<rparr>)) < card (lunvisited st)"
    by (meson card_Diff1_less card_mono finite_Diff finite_lunvisited le_less_trans)
  then show ?case by simp
next
  case (3 node l e es st)
  then show ?case by simp
next
  case (4 node l e es st st')
  then have "card (lunvisited st') \<le> card (lunvisited st)"
    using layered_dfs_unvisited_dom(1) by (simp add: card_mono finite_lunvisited)
  then show ?case by (auto simp: le_less)
next
  case (5 node l e es st)
  then show ?case by simp
qed

fun layered_visit_all :: "ref list \<Rightarrow> layered_state \<Rightarrow> error + layered_state" where
  "layered_visit_all [] st = Inr st"
| "layered_visit_all (node # rest) st =
     (case lstate st node of
        None \<Rightarrow> Inl (KeyError ''node'')
      | Some c \<Rightarrow>
          if c = 0 then
            (case layered_dfs node 0 st of
               Inl e \<Rightarrow> Inl e
             | Inr st' \<Rightarrow> layered_visit_all rest st')
          else layered_visit_all rest st)"

text \<open>
  \<open>layered_topological_sort\<close> reads \<open>self.nodes\<close>. It returns the layers; the graph
  comes back with the \<open>layer\<close> attributes that were assigned.
\<close>

definition layered_topological_sort :: "graph \<Rightarrow> error + (ref list list \<times> graph)" where
  "layered_topological_sort g =
     (case Graph_getattr g ''nodes'' of
        Inl e \<Rightarrow> Inl e
      | Inr OtherAttribute \<Rightarrow> Inl (TypeError ''not a collection of vertices'')
      | Inr (VertexList nodes) \<Rightarrow>
          (case layered_visit_all nodes
                  \<lparr>lstate = map_of (map (\<lambda>node. (node, 0)) nodes), layers = [],
                   heap = vertices g\<rparr> of
             Inl e \<Rightarrow> Inl e
           | Inr st \<Rightarrow> Inr (layers st, g\<lparr>vertices := heap st\<rparr>)))"

section \<open>The resolver is total and follows its precedence\<close>

lemma str_split_not_Nil: "str_split sep s \<noteq> []"
  by (induction s) (auto split: list.splits)

lemma hd_str_split: "hd (str_split sep s) = takeWhile (\<lambda>c. c \<noteq> sep) s"
  by (induction s) (auto split: list.splits simp: str_split_not_Nil)

lemma first_item_str_split:
  "first_item (str_split sep s) = Inr (takeWhile (\<lambda>c. c \<noteq> sep) s)"
proof (cases "str_split sep s")
  case Nil
  then show ?thesis by (simp add: str_split_not_Nil)
next
  case (Cons w ws)
  then have "w = hd (str_split sep s)" by simp
  with Cons show ?thesis by (simp add: first_item_def hd_str_split)
qed

text \<open>
  C3. For every declared type, declared base type and identifier the resolver returns a
  behaviour class, never an error, chosen by first match: the identifier's prefix before
  the first \<open>-\<close> if it is a key of the registry; else the file-tool behaviour if the
  declared type is a file tool; else the declared type if registered; else the declared
  base type if registered; else the generic \<open>Vertex\<close>. The result is a function of the
  three strings and the two registries alone.
\<close>

theorem get_vertex_class_total_precedence:
  "get_vertex_class env node_type node_lc_type node_id =
     Inr (case map_of (VERTEX_TYPE_MAP env) (takeWhile (\<lambda>c. c \<noteq> CHR ''-'') node_id) of
            Some by_name \<Rightarrow> by_name
          | None \<Rightarrow>
              if node_type \<in> set (FILE_TOOLS env) then FileToolVertex
              else (case map_of (VERTEX_TYPE_MAP env) node_type of
                      Some by_type \<Rightarrow> by_type
                    | None \<Rightarrow>
                        (case map_of (VERTEX_TYPE_MAP env) node_lc_type of
                           Some by_base \<Rightarrow> by_base
                         | None \<Rightarrow> Vertex)))"
  by (simp add: get_vertex_class_def first_item_str_split split: option.splits)

section \<open>Connectivity validation\<close>

lemma validate_loop_ok_iff: "validate_loop vs = Inr () \<longleftrightarrow> (\<forall>v\<in>set vs. vedges v \<noteq> [])"
  by (induction vs) (auto simp: validate_node_def)

lemma validate_loop_first:
  "i < length vs \<Longrightarrow> vedges (vs ! i) = [] \<Longrightarrow> \<forall>j<i. vedges (vs ! j) \<noteq> [] \<Longrightarrow>
   validate_loop vs =
     Inl (ValueError (vertex_type (vs ! i) @ '' is not connected to any other components''))"
proof (induction vs arbitrary: i)
  case Nil
  then show ?case by simp
next
  case (Cons v vs)
  show ?case
  proof (cases i)
    case 0
    with Cons.prems show ?thesis by (simp add: validate_node_def)
  next
    case (Suc k)
    with Cons.prems have "vedges v \<noteq> []" by auto
    moreover from Suc Cons.prems have "\<forall>j<k. vedges (vs ! j) \<noteq> []" by auto
    ultimately show ?thesis using Suc Cons.prems Cons.IH[of k] by (simp add: validate_node_def)
  qed
qed

text \<open>
  C4. Connectivity validation succeeds on every collection of exactly one vertex, whatever
  its edges. On two or more vertices it raises if and only if some vertex has no incident
  edge, and the error is the one for the first such vertex in collection order, whose
  message starts with that vertex's \<open>vertex_type\<close>.
\<close>

theorem validate_nodes_connectivity:
  "(length vs = 1 \<longrightarrow> validate_nodes vs = Inr ()) \<and>
   (2 \<le> length vs \<longrightarrow>
      ((\<exists>e. validate_nodes vs = Inl e) \<longleftrightarrow> (\<exists>v\<in>set vs. length (vedges v) = 0))) \<and>
   (2 \<le> length vs \<longrightarrow>
      (\<forall>i<length vs. length (vedges (vs ! i)) = 0 \<and> (\<forall>j<i. length (vedges (vs ! j)) \<noteq> 0) \<longrightarrow>
         validate_nodes vs =
           Inl (ValueError (vertex_type (vs ! i) @ '' is not connected to any other components''))))"
proof (intro conjI impI allI)
  assume "length vs = 1"
  then show "validate_nodes vs = Inr ()" by (simp add: validate_nodes_def)
next
  assume n: "2 \<le> length vs"
  then have eq: "validate_nodes vs = validate_loop vs" by (simp add: validate_nodes_def)
  have "(\<exists>e. validate_loop vs = Inl e) \<longleftrightarrow> validate_loop vs \<noteq> Inr ()"
    by (cases "validate_loop vs") auto
  then show "(\<exists>e. validate_nodes vs = Inl e) \<longleftrightarrow> (\<exists>v\<in>set vs. length (vedges v) = 0)"
    by (simp add: eq validate_loop_ok_iff)
next
  fix i
  assume n: "2 \<le> length vs" and i: "i < length vs"
    and h: "length (vedges (vs ! i)) = 0 \<and> (\<forall>j<i. length (vedges (vs ! j)) \<noteq> 0)"
  from n have eq: "validate_nodes vs = validate_loop vs" by (simp add: validate_nodes_def)
  from i h show "validate_nodes vs =
      Inl (ValueError (vertex_type (vs ! i) @ '' is not connected to any other components''))"
    unfolding eq by (intro validate_loop_first) auto
qed

theorem validate_nodes_connectivity_witness:
  "validate_nodes [new_vertex Vertex ''A'' ''Tool''] = Inr () \<and>
   (\<exists>e. validate_nodes [new_vertex Vertex ''A'' ''Tool'', new_vertex Vertex ''B'' ''Chain''] = Inl e) \<and>
   validate_nodes
     [add_edge (ContractEdge 0 0 []) (new_vertex Vertex ''A'' ''Tool''),
      new_vertex Vertex ''B'' ''Chain'', new_vertex Vertex ''C'' ''Agent'']
     = Inl (ValueError ''Chain is not connected to any other components'')"
proof -
  let ?one = "[new_vertex Vertex ''A'' ''Tool'']"
  let ?two = "[new_vertex Vertex ''A'' ''Tool'', new_vertex Vertex ''B'' ''Chain'']"
  let ?three = "[add_edge (ContractEdge 0 0 []) (new_vertex Vertex ''A'' ''Tool''),
      new_vertex Vertex ''B'' ''Chain'', new_vertex Vertex ''C'' ''Agent'']"
  have a: "validate_nodes ?one = Inr ()"
    by (rule validate_nodes_connectivity[of ?one, THEN conjunct1, rule_format]) simp
  have "\<exists>v\<in>set ?two. length (vedges v) = 0"
    by (simp add: new_vertex_def)
  then have b: "\<exists>e. validate_nodes ?two = Inl e"
    using validate_nodes_connectivity[of ?two, THEN conjunct2, THEN conjunct1, rule_format]
    by simp
  have c: "validate_nodes ?three =
      Inl (ValueError (vertex_type (?three ! 1) @ '' is not connected to any other components''))"
    by (rule validate_nodes_connectivity[of ?three, THEN conjunct2, THEN conjunct2, rule_format, of 1])
       (simp_all add: new_vertex_def add_edge_def)
  from a b c show ?thesis by (simp add: new_vertex_def)
qed

section \<open>Role-based parameter propagation\<close>

definition last_llm :: "vertex_class list \<Rightarrow> ref list \<Rightarrow> ref option \<Rightarrow> ref option" where
  "last_llm cs is llm = fold (\<lambda>i acc. if cs ! i = LLMVertex then Some i else acc) is llm"

lemma update_at_length [simp]: "length (update_at r f vs) = length vs"
  by (simp add: update_at_def)

lemma update_at_nth:
  "i < length vs \<Longrightarrow> update_at r f vs ! i = (if i = r then f (vs ! i) else vs ! i)"
  by (simp add: update_at_def)

lemma vclass_build_params [simp]: "vclass (Vertex_build_params env v) = vclass v"
  by (simp add: Vertex_build_params_def)

lemma map_vclass_update_at:
  "map vclass (update_at r (Vertex_build_params env) vs) = map vclass vs"
  by (rule nth_equalityI) (simp_all add: update_at_nth)

lemma build_params_loop_result:
  "distinct is \<Longrightarrow> \<forall>i\<in>set is. i < length vs \<Longrightarrow>
   build_params_loop env is (vs, llm) =
     (map (\<lambda>i. if i \<in> set is then Vertex_build_params env (vs ! i) else vs ! i) [0..<length vs],
      last_llm (map vclass vs) is llm)"
proof (induction "is" arbitrary: vs llm)
  case Nil
  then show ?case by (simp add: last_llm_def map_nth)
next
  case (Cons node rest)
  let ?vs' = "update_at node (Vertex_build_params env) vs"
  let ?llm' = "if isinstance (?vs' ! node) LLMVertex then Some node else llm"
  from Cons.prems have node: "node < length vs" "node \<notin> set rest" by auto
  have step: "build_params_loop env (node # rest) (vs, llm) = build_params_loop env rest (?vs', ?llm')"
    by (simp add: Let_def)
  have ih: "build_params_loop env rest (?vs', ?llm') =
     (map (\<lambda>i. if i \<in> set rest then Vertex_build_params env (?vs' ! i) else ?vs' ! i) [0..<length ?vs'],
      last_llm (map vclass ?vs') rest ?llm')"
    using Cons.prems by (intro Cons.IH) auto
  have lists: "map (\<lambda>i. if i \<in> set rest then Vertex_build_params env (?vs' ! i) else ?vs' ! i) [0..<length ?vs']
      = map (\<lambda>i. if i \<in> set (node # rest) then Vertex_build_params env (vs ! i) else vs ! i) [0..<length vs]"
    using node by (auto simp: update_at_nth)
  have "isinstance (?vs' ! node) LLMVertex \<longleftrightarrow> map vclass vs ! node = LLMVertex"
    using node by (simp add: isinstance_def update_at_nth)
  then have llms: "last_llm (map vclass ?vs') rest ?llm' = last_llm (map vclass vs) (node # rest) llm"
    by (simp add: last_llm_def map_vclass_update_at)
  show ?case unfolding step ih lists llms ..
qed

lemma build_params_loop_all:
  "build_params_loop env [0..<length vs] (vs, None) =
     (map (Vertex_build_params env) vs, last_llm (map vclass vs) [0..<length vs] None)"
proof -
  have "map (\<lambda>i. if i \<in> set [0..<length vs] then Vertex_build_params env (vs ! i) else vs ! i)
          [0..<length vs] = map (Vertex_build_params env) vs"
    by (rule nth_equalityI) simp_all
  then show ?thesis
    using build_params_loop_result[of "[0..<length vs]" vs env None] by simp
qed

lemma last_llm_none:
  "\<forall>i\<in>set is. cs ! i \<noteq> LLMVertex \<Longrightarrow> last_llm cs is llm = llm"
  by (induction "is" arbitrary: llm) (auto simp: last_llm_def)

lemma last_llm_upt:
  assumes "l < n" "cs ! l = LLMVertex" "\<forall>j<n. l < j \<longrightarrow> cs ! j \<noteq> LLMVertex"
  shows "last_llm cs [0..<n] llm = Some l"
proof -
  from assms(1) have split: "[0..<n] = [0..<l] @ l # [Suc l..<n]"
    by (metis le_add1 less_imp_add_positive upt_add_eq_append upt_conv_Cons zero_le less_eq_nat.simps(1) add.commute le0 upt_eq_Cons_conv)
  have "last_llm cs [0..<n] llm = last_llm cs [Suc l..<n] (Some l)"
    unfolding split using assms(2) by (simp add: last_llm_def)
  also have "\<dots> = Some l"
    using assms(3) by (intro last_llm_none) auto
  finally show ?thesis .
qed

lemma build_node_params_length [simp]: "length (build_node_params env vs) = length vs"
  by (simp add: build_node_params_def build_params_loop_all split: option.splits)

lemma build_node_params_nth:
  "i < length vs \<Longrightarrow>
   build_node_params env vs ! i =
     (case last_llm (map vclass vs) [0..<length vs] None of
        None \<Rightarrow> Vertex_build_params env (vs ! i)
      | Some l \<Rightarrow> set_llm l (Vertex_build_params env (vs ! i)))"
  by (simp add: build_node_params_def build_params_loop_all split: option.splits)

lemma build_node_params_fields:
  assumes "i < length vs"
  shows "vedges (build_node_params env vs ! i) = vedges (vs ! i)"
    and "vid (build_node_params env vs ! i) = vid (vs ! i)"
    and "vclass (build_node_params env vs ! i) = vclass (vs ! i)"
    and "vertex_type (build_node_params env vs ! i) = vertex_type (vs ! i)"
    and "params_built (build_node_params env vs ! i) = Suc (params_built (vs ! i))"
  using assms
  by (simp_all add: build_node_params_nth set_llm_def Vertex_build_params_def split: option.splits)

text \<open>
  C5. Parameter propagation keeps the collection's length and every vertex's class, and
  runs each vertex's parameter preparation exactly once. If the collection holds an LLM
  vertex and \<open>l\<close> is the address of the last one in collection order, then afterwards
  every toolkit vertex holds, under the key \<open>llm\<close>, a reference to the vertex at \<open>l\<close>.
\<close>

theorem build_node_params_propagates_last_llm:
  "length (build_node_params env vs) = length vs \<and>
   (\<forall>i<length vs.
      params_built (build_node_params env vs ! i) = Suc (params_built (vs ! i)) \<and>
      vclass (build_node_params env vs ! i) = vclass (vs ! i)) \<and>
   (\<forall>l<length vs.
      isinstance (vs ! l) LLMVertex \<and> (\<forall>j<length vs. l < j \<longrightarrow> \<not> isinstance (vs ! j) LLMVertex) \<longrightarrow>
      (\<forall>i<length vs.
         isinstance (vs ! i) ToolkitVertex \<longrightarrow>
         map_of (params (build_node_params env vs ! i)) ''llm'' = Some (VertexRef l)))"
proof (intro conjI allI impI)
  show "length (build_node_params env vs) = length vs" by simp
next
  fix i assume "i < length vs"
  then show "params_built (build_node_params env vs ! i) = Suc (params_built (vs ! i))"
    and "vclass (build_node_params env vs ! i) = vclass (vs ! i)"
    by (simp_all add: build_node_params_fields)
next
  fix l i
  assume l: "l < length vs" and i: "i < length vs"
    and h: "isinstance (vs ! l) LLMVertex \<and> (\<forall>j<length vs. l < j \<longrightarrow> \<not> isinstance (vs ! j) LLMVertex)"
    and tk: "isinstance (vs ! i) ToolkitVertex"
  have "last_llm (map vclass vs) [0..<length vs] None = Some l"
    using l h by (intro last_llm_upt) (auto simp: isinstance_def)
  with i tk show "map_of (params (build_node_params env vs ! i)) ''llm'' = Some (VertexRef l)"
    by (simp add: build_node_params_nth set_llm_def isinstance_def update_conv)
qed

definition example_env :: env where
  "example_env =
     \<lparr>process_flow = (\<lambda>raw. raw),
      VERTEX_TYPE_MAP = [(''ChatOpenAI'', LLMVertex), (''JsonToolkit'', ToolkitVertex)],
      FILE_TOOLS = [''JsonSpec''],
      compute_params = (\<lambda>v. [(''name'', Opaque (vid v))])\<rparr>"

definition role_vertices :: "vertex list" where
  "role_vertices =
     [new_vertex LLMVertex ''ChatOpenAI-1'' ''ChatOpenAI'',
      new_vertex ToolkitVertex ''JsonToolkit-1'' ''JsonToolkit'',
      new_vertex LLMVertex ''ChatOpenAI-2'' ''ChatOpenAI'',
      new_vertex ToolkitVertex ''JsonToolkit-2'' ''JsonToolkit'']"

theorem build_node_params_propagates_last_llm_witness:
  "map_of (params (build_node_params example_env role_vertices ! 1)) ''llm'' = Some (VertexRef 2) \<and>
   map_of (params (build_node_params example_env role_vertices ! 3)) ''llm'' = Some (VertexRef 2) \<and>
   params_built (build_node_params example_env role_vertices ! 0) = Suc 0"
proof -
  note main = build_node_params_propagates_last_llm[of example_env role_vertices]
  have len: "length role_vertices = 4" by (simp add: role_vertices_def)
  have last: "isinstance (role_vertices ! 2) LLMVertex \<and>
      (\<forall>j<length role_vertices. 2 < j \<longrightarrow> \<not> isinstance (role_vertices ! j) LLMVertex)"
  proof (intro conjI allI impI)
    show "isinstance (role_vertices ! 2) LLMVertex"
      by (simp add: role_vertices_def isinstance_def new_vertex_def)
  next
    fix j assume "j < length role_vertices" "2 < j"
    then have "j = 3" by (simp add: len)
    then show "\<not> isinstance (role_vertices ! j) LLMVertex"
      by (simp add: role_vertices_def isinstance_def new_vertex_def)
  qed
  have tk1: "isinstance (role_vertices ! 1) ToolkitVertex"
    and tk3: "isinstance (role_vertices ! 3) ToolkitVertex"
    by (simp_all add: role_vertices_def isinstance_def new_vertex_def)
  have a: "map_of (params (build_node_params example_env role_vertices ! 1)) ''llm'' = Some (VertexRef 2)"
    using main[THEN conjunct2, THEN conjunct2, rule_format, of 2 1] last tk1 by (simp add: len)
  have b: "map_of (params (build_node_params example_env role_vertices ! 3)) ''llm'' = Some (VertexRef 2)"
    using main[THEN conjunct2, THEN conjunct2, rule_format, of 2 3] last tk3 by (simp add: len)
  have c: "params_built (build_node_params example_env role_vertices ! 0) = Suc 0"
    using main[THEN conjunct2, THEN conjunct1, rule_format, of 0]
    by (simp add: len) (simp add: role_vertices_def new_vertex_def)
  from a b c show ?thesis by simp
qed

section \<open>Edge construction\<close>

lemma get_vertex_Some:
  "get_vertex vs node_id = Some i \<Longrightarrow> i < length vs \<and> vid (vs ! i) = node_id"
  unfolding get_vertex_def by (auto simp: find_Some_iff)

lemma get_vertex_None: "get_vertex vs node_id = None \<longleftrightarrow> node_id \<notin> vid ` set vs"
proof -
  have "node_id \<in> vid ` set vs \<longleftrightarrow> (\<exists>i<length vs. vid (vs ! i) = node_id)"
    by (metis (no_types, lifting) image_iff in_set_conv_nth)
  then show ?thesis unfolding get_vertex_def by (auto simp: find_None_iff)
qed

definition valid_edge :: "vertex list \<Rightarrow> edge \<Rightarrow> bool" where
  "valid_edge vs e \<longleftrightarrow> source e < length vs \<and> target e < length vs"

lemma build_edge_valid: "build_edge vs e = Inr ce \<Longrightarrow> valid_edge vs ce"
  by (auto simp: build_edge_def valid_edge_def ContractEdge_def
      split: sum.splits option.splits dest: get_vertex_Some)

lemma build_edges_loop_valid:
  "build_edges_loop vs es acc = Inr ces \<Longrightarrow> \<forall>e\<in>set acc. valid_edge vs e \<Longrightarrow>
   \<forall>e\<in>set ces. valid_edge vs e"
proof (induction es arbitrary: acc)
  case Nil
  then show ?case by simp
next
  case (Cons e es)
  from Cons.prems(1) obtain ce where ce: "build_edge vs e = Inr ce"
    and rest: "build_edges_loop vs es (acc @ [ce]) = Inr ces"
    by (auto split: sum.splits)
  from ce Cons.prems(2) have "\<forall>x\<in>set (acc @ [ce]). valid_edge vs x"
    by (auto dest: build_edge_valid)
  with rest show ?case by (rule Cons.IH)
qed

lemma build_edges_valid: "build_edges vs es = Inr ces \<Longrightarrow> \<forall>e\<in>set ces. valid_edge vs e"
  unfolding build_edges_def by (erule build_edges_loop_valid) simp

text \<open>A raw edge whose source or target identifier names no vertex of the collection.\<close>

definition unknown_endpoint :: "vertex list \<Rightarrow> raw_edge \<Rightarrow> string \<Rightarrow> bool" where
  "unknown_endpoint vs e node_id \<longleftrightarrow>
     (map_of e ''source'' = Some node_id \<or> map_of e ''target'' = Some node_id) \<and>
     node_id \<notin> vid ` set vs"

definition not_found :: "string \<Rightarrow> error set" where
  "not_found node_id =
     {ValueError (''Source node '' @ node_id @ '' not found''),
      ValueError (''Target node '' @ node_id @ '' not found'')}"

lemma build_edge_unknown:
  assumes "map_of e ''source'' \<noteq> None" "map_of e ''target'' \<noteq> None"
    and "unknown_endpoint vs e node_id"
  shows "\<exists>missing err. unknown_endpoint vs e missing \<and> err \<in> not_found missing \<and>
           build_edge vs e = Inl err"
proof -
  from assms(1,2) obtain s t where s: "map_of e ''source'' = Some s"
    and t: "map_of e ''target'' = Some t" by auto
  show ?thesis
  proof (cases "get_vertex vs s")
    case None
    then have "unknown_endpoint vs e s" using s by (simp add: unknown_endpoint_def get_vertex_None)
    moreover have "build_edge vs e = Inl (ValueError (''Source node '' @ s @ '' not found''))"
      using s t None by (simp add: build_edge_def subscript_def)
    ultimately show ?thesis by (auto simp: not_found_def)
  next
    case (Some src)
    then have "s \<in> vid ` set vs" using get_vertex_None[of vs s] by auto
    with assms(3) s t have tn: "get_vertex vs t = None" and "node_id = t"
      by (auto simp: unknown_endpoint_def get_vertex_None)
    then have "unknown_endpoint vs e t" using assms(3) by simp
    moreover have "build_edge vs e = Inl (ValueError (''Target node '' @ t @ '' not found''))"
      using s t Some tn by (simp add: build_edge_def subscript_def)
    ultimately show ?thesis by (auto simp: not_found_def)
  qed
qed

lemma build_edge_keys_error:
  assumes "map_of e ''source'' \<noteq> None" "map_of e ''target'' \<noteq> None"
    and "build_edge vs e = Inl err"
  shows "\<exists>missing. unknown_endpoint vs e missing \<and> err \<in> not_found missing"
  using assms
  by (auto simp: build_edge_def subscript_def unknown_endpoint_def not_found_def get_vertex_None
      split: option.splits)

lemma build_edges_loop_unknown:
  assumes "\<forall>e\<in>set es. map_of e ''source'' \<noteq> None \<and> map_of e ''target'' \<noteq> None"
    and "\<exists>e\<in>set es. \<exists>node_id. unknown_endpoint vs e node_id"
  shows "\<exists>e\<in>set es. \<exists>missing err. unknown_endpoint vs e missing \<and> err \<in> not_found missing \<and>
           build_edges_loop vs es acc = Inl err"
  using assms
proof (induction es arbitrary: acc)
  case Nil
  then show ?case by simp
next
  case (Cons e es)
  from Cons.prems(1) have k: "map_of e ''source'' \<noteq> None" "map_of e ''target'' \<noteq> None" by auto
  show ?case
  proof (cases "build_edge vs e")
    case (Inl err)
    with build_edge_keys_error[OF k Inl] show ?thesis by auto
  next
    case (Inr ce)
    have "\<not> (\<exists>node_id. unknown_endpoint vs e node_id)"
    proof
      assume "\<exists>node_id. unknown_endpoint vs e node_id"
      then obtain node_id where "unknown_endpoint vs e node_id" ..
      from build_edge_unknown[OF k this] Inr show False by auto
    qed
    with Cons.prems have "\<forall>e\<in>set es. map_of e ''source'' \<noteq> None \<and> map_of e ''target'' \<noteq> None"
      and "\<exists>e\<in>set es. \<exists>node_id. unknown_endpoint vs e node_id" by auto
    from Cons.IH[OF this, of "acc @ [ce]"] Inr show ?thesis by auto
  qed
qed

section \<open>Constructed graphs\<close>

lemma build_graph_Inr:
  assumes "build_graph env top_level nodes es = Inr g"
  obtains vs ces where "build_vertices env top_level nodes = Inr vs"
    and "build_edges vs es = Inr ces"
    and "validate_nodes (build_node_params env (register_edges ces vs)) = Inr ()"
    and "vertices g = build_node_params env (register_edges ces vs)"
    and "edges g = ces"
  using assms unfolding build_graph_def
  by (auto split: sum.splits)

lemma register_edges_length [simp]: "length (register_edges ces vs) = length vs"
  by (induction ces arbitrary: vs) simp_all

text \<open>
  C6. When the normalized edge records all carry a source and a target identifier and one
  of them names no vertex of the collection, construction fails with the error that names
  such a missing identifier; and the edges of every constructed graph have both endpoints
  among its vertices.
\<close>

theorem unknown_endpoint_aborts_construction:
  "(process_flow env (nodes, es) = (nodes', es') \<and>
    build_vertices env (top_level_ids nodes) nodes' = Inr vs \<and>
    (\<forall>e\<in>set es'. map_of e ''source'' \<noteq> None \<and> map_of e ''target'' \<noteq> None) \<and>
    (\<exists>e\<in>set es'. \<exists>node_id. unknown_endpoint vs e node_id) \<longrightarrow>
    (\<exists>e\<in>set es'. \<exists>missing err. unknown_endpoint vs e missing \<and> err \<in> not_found missing \<and>
       Graph_init env nodes es = Inl err)) \<and>
   (Graph_init env nodes es = Inr g \<longrightarrow>
    (\<forall>e\<in>set (edges g). source e < length (vertices g) \<and> target e < length (vertices g)))"
proof (intro conjI impI)
  assume h: "process_flow env (nodes, es) = (nodes', es') \<and>
    build_vertices env (top_level_ids nodes) nodes' = Inr vs \<and>
    (\<forall>e\<in>set es'. map_of e ''source'' \<noteq> None \<and> map_of e ''target'' \<noteq> None) \<and>
    (\<exists>e\<in>set es'. \<exists>node_id. unknown_endpoint vs e node_id)"
  then obtain e missing err where e: "e \<in> set es'" "unknown_endpoint vs e missing"
    "err \<in> not_found missing" and b: "build_edges_loop vs es' [] = Inl err"
    using build_edges_loop_unknown[of es' vs "[]"] by blast
  from h b have "Graph_init env nodes es = Inl err"
    by (simp add: Graph_init_def build_graph_def build_edges_def)
  with e show "\<exists>e\<in>set es'. \<exists>missing err. unknown_endpoint vs e missing \<and> err \<in> not_found missing \<and>
       Graph_init env nodes es = Inl err" by blast
next
  assume "Graph_init env nodes es = Inr g"
  then obtain nodes' es' where "build_graph env (top_level_ids nodes) nodes' es' = Inr g"
    by (auto simp: Graph_init_def split: prod.splits)
  then obtain vs ces where "build_edges vs es' = Inr ces"
    and "vertices g = build_node_params env (register_edges ces vs)" and "edges g = ces"
    by (rule build_graph_Inr)
  then show "\<forall>e\<in>set (edges g). source e < length (vertices g) \<and> target e < length (vertices g)"
    using build_edges_valid[of vs es' ces] by (simp add: valid_edge_def)
qed


section \<open>A sample flow\<close>

definition mk_node :: "string \<Rightarrow> string \<Rightarrow> string \<Rightarrow> raw_node" where
  "mk_node node_id node_type base_type =
     \<lparr>n_id = Some node_id,
      n_data = Some \<lparr>d_type = Some node_type,
                     d_node = Some \<lparr>n_template = Some \<lparr>t_type = Some base_type\<rparr>\<rparr>\<rparr>\<rparr>"

definition mk_edge :: "string \<Rightarrow> string \<Rightarrow> raw_edge" where
  "mk_edge s t = [(''source'', s), (''target'', t)]"

definition abc_nodes :: "raw_node list" where
  "abc_nodes = [mk_node ''A'' ''Tool'' ''tool'', mk_node ''B'' ''Chain'' ''chain'', mk_node ''C'' ''Agent'' ''agent'']"

definition abc_edges :: "raw_edge list" where
  "abc_edges = [mk_edge ''A'' ''B'', mk_edge ''B'' ''C'']"

lemmas eval_defs = Graph_init_def build_graph_def build_vertices_def build_vertex_def field_def
  get_vertex_class_def first_item_def example_env_def new_vertex_def set_top_level_def
  top_level_ids_def build_edges_def build_edge_def subscript_def get_vertex_def ContractEdge_def
  update_at_def add_edge_def build_node_params_def Vertex_build_params_def isinstance_def
  set_llm_def validate_nodes_def validate_node_def mk_node_def mk_edge_def abc_nodes_def abc_edges_def

theorem unknown_endpoint_aborts_construction_witness:
  "Graph_init example_env abc_nodes [mk_edge ''A'' ''B'', mk_edge ''B'' ''Z'', mk_edge ''B'' ''C'']
     = Inl (ValueError ''Target node Z not found'') \<and>
   (\<exists>g. Graph_init example_env abc_nodes abc_edges = Inr g \<and>
        (\<forall>e\<in>set (edges g). source e < length (vertices g) \<and> target e < length (vertices g)))"
proof -
  let ?es = "[mk_edge ''A'' ''B'', mk_edge ''B'' ''Z'', mk_edge ''B'' ''C'']"
  obtain vs where vs: "build_vertices example_env (top_level_ids abc_nodes) abc_nodes = Inr vs"
    and ids: "map vid vs = [''A'', ''B'', ''C'']"
    by (simp add: eval_defs)
  have pf: "process_flow example_env (abc_nodes, ?es) = (abc_nodes, ?es)"
    by (simp add: example_env_def)
  have ks: "\<forall>e\<in>set ?es. map_of e ''source'' \<noteq> None \<and> map_of e ''target'' \<noteq> None"
    by (simp add: mk_edge_def)
  have "vid ` set vs = set (map vid vs)" by simp
  then have "unknown_endpoint vs (mk_edge ''B'' ''Z'') ''Z''"
    unfolding ids by (simp add: unknown_endpoint_def mk_edge_def)
  then have un: "\<exists>e\<in>set ?es. \<exists>node_id. unknown_endpoint vs e node_id" by auto
  from unknown_endpoint_aborts_construction[of example_env abc_nodes ?es abc_nodes ?es vs,
      THEN conjunct1, rule_format, OF conjI[OF pf conjI[OF vs conjI[OF ks un]]]]
  have "\<exists>err. Graph_init example_env abc_nodes ?es = Inl err" by blast
  then have a: "Graph_init example_env abc_nodes ?es = Inl (ValueError ''Target node Z not found'')"
    by (simp add: eval_defs)
  obtain g where g: "Graph_init example_env abc_nodes abc_edges = Inr g"
    by (simp add: eval_defs)
  from unknown_endpoint_aborts_construction[of example_env abc_nodes abc_edges _ _ _ g,
      THEN conjunct2, rule_format, OF g] g a
  show ?thesis by blast
qed

section \<open>The empty graph\<close>

lemma validate_loop_error_length: "validate_loop vs = Inl err \<Longrightarrow> 1 \<le> length vs"
  by (cases vs) simp_all

text \<open>
  C10. A graph without vertices and edges passes connectivity validation and its
  construction completes; validation raises only on a collection of two or more vertices.
\<close>

theorem empty_graph_accepted:
  "validate_nodes [] = Inr () \<and>
   (process_flow env (nodes, es) = ([], []) \<longrightarrow>
      (\<exists>g. Graph_init env nodes es = Inr g \<and> vertices g = [] \<and> edges g = [])) \<and>
   (validate_nodes vs = Inl err \<longrightarrow> 2 \<le> length vs)"
proof (intro conjI impI)
  show "validate_nodes [] = Inr ()" by (simp add: validate_nodes_def)
next
  assume "process_flow env (nodes, es) = ([], [])"
  then show "\<exists>g. Graph_init env nodes es = Inr g \<and> vertices g = [] \<and> edges g = []"
    by (simp add: Graph_init_def build_graph_def build_vertices_def build_edges_def
        build_node_params_def validate_nodes_def)
next
  assume e: "validate_nodes vs = Inl err"
  then have "length vs \<noteq> 1" and "validate_loop vs = Inl err"
    by (auto simp: validate_nodes_def split: if_splits)
  with validate_loop_error_length[of vs err] show "2 \<le> length vs" by linarith
qed

theorem empty_graph_accepted_witness:
  "(\<exists>g. Graph_init example_env [] [] = Inr g \<and> vertices g = [] \<and> edges g = []) \<and>
   validate_nodes [new_vertex Vertex ''A'' ''Tool'', new_vertex Vertex ''B'' ''Chain'']
     = Inl (ValueError ''Tool is not connected to any other components'') \<and>
   (2::nat) \<le> length [new_vertex Vertex ''A'' ''Tool'', new_vertex Vertex ''B'' ''Chain'']"
proof -
  let ?two = "[new_vertex Vertex ''A'' ''Tool'', new_vertex Vertex ''B'' ''Chain'']"
  have pf: "process_flow example_env ([], []) = ([], [])" by (simp add: example_env_def)
  have v: "validate_nodes ?two = Inl (ValueError ''Tool is not connected to any other components'')"
    by (simp add: validate_nodes_def validate_node_def new_vertex_def)
  from empty_graph_accepted[of example_env "[]" "[]", THEN conjunct2, THEN conjunct1, rule_format, OF pf]
    empty_graph_accepted[of _ _ _ ?two, THEN conjunct2, THEN conjunct2, rule_format, OF v] v
  show ?thesis by blast
qed

section \<open>Payloads with missing keys\<close>

text \<open>
  C9. \<open>from_payload\<close> first replaces the payload by the value under \<open>data\<close> when that key
  is present. If the payload so unwrapped is a dictionary without \<open>nodes\<close> or without
  \<open>edges\<close>, the result is the error that lists the keys of the unwrapped payload,
  whatever the constructor \<open>cls\<close> is: no graph, hence no vertex, is built.
\<close>

theorem from_payload_missing_keys:
  "(map_of payload ''data'' = None \<longrightarrow> unwrap payload = Dict payload) \<and>
   (map_of payload ''data'' = Some inner \<longrightarrow> unwrap payload = inner) \<and>
   (unwrap payload = Dict p \<and> (''nodes'' \<notin> set (keys p) \<or> ''edges'' \<notin> set (keys p)) \<longrightarrow>
      from_payload cls payload = Inl (invalid_payload (keys p)) \<and>
      invalid_payload (keys p) =
        ValueError (''Invalid payload. Expected keys '' @ [CHR 0x27] @ ''nodes'' @ [CHR 0x27]
                    @ '' and '' @ [CHR 0x27] @ ''edges'' @ [CHR 0x27] @ ''. Found ''
                    @ list_repr (map fst p)))"
proof (intro conjI impI)
  assume "unwrap payload = Dict p \<and> (''nodes'' \<notin> set (keys p) \<or> ''edges'' \<notin> set (keys p))"
  then have u: "unwrap payload = Dict p"
    and k: "map_of p ''nodes'' = None \<or> map_of p ''edges'' = None"
    by (auto simp: keys_def map_of_eq_None_iff)
  then show "from_payload cls payload = Inl (invalid_payload (keys p))"
    by (auto simp: from_payload_def split: option.splits)
qed (simp_all add: unwrap_def invalid_payload_def keys_def)

theorem from_payload_missing_keys_witness:
  "from_payload (Graph_cls example_env)
     [(''name'', Other ''NoneType''), (''data'', Dict [(''nodes'', NodeList abc_nodes), (''viewport'', Other ''int'')])]
   = Inl (ValueError (''Invalid payload. Expected keys '' @ [CHR 0x27] @ ''nodes'' @ [CHR 0x27]
                    @ '' and '' @ [CHR 0x27] @ ''edges'' @ [CHR 0x27] @ ''. Found ''
                    @ ''['' @ [CHR 0x27] @ ''nodes'' @ [CHR 0x27] @ '', '' @ [CHR 0x27]
                    @ ''viewport'' @ [CHR 0x27] @ '']''))"
proof -
  let ?inner = "[(''nodes'', NodeList abc_nodes), (''viewport'', Other ''int'')]"
  let ?payload = "[(''name'', Other ''NoneType''), (''data'', Dict ?inner)]"
  have u: "unwrap ?payload = Dict ?inner"
    using from_payload_missing_keys[of ?payload "Dict ?inner", THEN conjunct2, THEN conjunct1]
    by simp
  have k: "''nodes'' \<notin> set (keys ?inner) \<or> ''edges'' \<notin> set (keys ?inner)"
    by (simp add: keys_def)
  have r: "list_repr [''nodes'', ''viewport''] =
      ''['' @ [CHR 0x27] @ ''nodes'' @ [CHR 0x27] @ '', '' @ [CHR 0x27] @ ''viewport'' @ [CHR 0x27] @ '']''"
    by (simp add: list_repr_def str_repr_def repr_quote_def repr_char_def printable_def Let_def)
  from from_payload_missing_keys[of ?payload _ ?inner "Graph_cls example_env",
      THEN conjunct2, THEN conjunct2, rule_format, OF conjI[OF u k]]
  show ?thesis by (simp add: r)
qed

section \<open>Invariants of the depth-first traversal\<close>

text \<open>
  The edges \<open>dfs\<close> follows from a vertex: the targets of those of its registered edges
  whose source it is.
\<close>

definition succs :: "vertex list \<Rightarrow> ref \<Rightarrow> ref set" where
  "succs vs i = {target e |e. e \<in> set (vedges (vs ! i)) \<and> source e = i}"

definition out_rel :: "vertex list \<Rightarrow> (ref \<times> ref) set" where
  "out_rel vs = {(i, t). i < length vs \<and> t \<in> succs vs i}"

definition closed :: "vertex list \<Rightarrow> bool" where
  "closed vs \<longleftrightarrow> (\<forall>i<length vs. \<forall>t\<in>succs vs i. t < length vs)"

definition visiting :: "dfs_state \<Rightarrow> ref set" where
  "visiting st = {i. state st i = Some 1}"

definition visited :: "dfs_state \<Rightarrow> ref set" where
  "visited st = {i. state st i = Some 2}"

text \<open>\<open>xs.index(x)\<close> for an element of the list.\<close>

definition index_of :: "'a list \<Rightarrow> 'a \<Rightarrow> nat" where
  "index_of xs x = length (takeWhile (\<lambda>y. y \<noteq> x) xs)"

lemma index_of_append: "x \<in> set xs \<Longrightarrow> index_of (xs @ ys) x = index_of xs x"
  by (simp add: index_of_def takeWhile_append1)

lemma index_of_less: "x \<in> set xs \<Longrightarrow> index_of xs x < length xs"
  by (induction xs) (auto simp: index_of_def)

lemma index_of_last: "x \<notin> set xs \<Longrightarrow> index_of (xs @ [x]) x = length xs"
  by (induction xs) (auto simp: index_of_def)

lemma index_of_nth: "distinct xs \<Longrightarrow> i < length xs \<Longrightarrow> index_of xs (xs ! i) = i"
proof (induction xs arbitrary: i)
  case Nil
  then show ?case by simp
next
  case (Cons x xs)
  then show ?case by (cases i) (auto simp: index_of_def)
qed

lemma nth_index_of: "x \<in> set xs \<Longrightarrow> xs ! index_of xs x = x"
  by (induction xs) (auto simp: index_of_def)

lemma index_of_rev:
  assumes "distinct xs" "x \<in> set xs"
  shows "index_of (rev xs) x = length xs - Suc (index_of xs x)"
proof -
  let ?i = "index_of xs x"
  have i: "?i < length xs" using assms(2) by (rule index_of_less)
  have "rev xs ! (length xs - Suc ?i) = xs ! ?i"
    using i by (simp add: rev_nth)
  then have "index_of (rev xs) (rev xs ! (length xs - Suc ?i)) = index_of (rev xs) x"
    using assms(2) by (simp add: nth_index_of)
  moreover have "index_of (rev xs) (rev xs ! (length xs - Suc ?i)) = length xs - Suc ?i"
    using assms(1) i by (intro index_of_nth) auto
  ultimately show ?thesis by simp
qed

definition dfs_inv :: "vertex list \<Rightarrow> dfs_state \<Rightarrow> bool" where
  "dfs_inv vs st \<longleftrightarrow>
     dom (state st) = {..<length vs} \<and>
     (\<forall>i c. state st i = Some c \<longrightarrow> c \<le> 2) \<and>
     distinct (sorted_vertices st) \<and>
     set (sorted_vertices st) = visited st \<and>
     (\<forall>b\<in>visited st. \<forall>t\<in>succs vs b.
        t \<in> visited st \<and> index_of (sorted_vertices st) t < index_of (sorted_vertices st) b)"

definition extends :: "dfs_state \<Rightarrow> dfs_state \<Rightarrow> bool" where
  "extends st st' \<longleftrightarrow>
     visiting st' = visiting st \<and> visited st \<subseteq> visited st' \<and>
     (\<exists>ys. sorted_vertices st' = sorted_vertices st @ ys)"

lemma extends_refl: "extends st st"
  by (simp add: extends_def)

lemma extends_trans: "extends a b \<Longrightarrow> extends b c \<Longrightarrow> extends a c"
  by (auto simp: extends_def)

lemma dfs_inv_enter:
  assumes "dfs_inv vs st" "state st x = Some 0"
  shows "dfs_inv vs (st\<lparr>state := (state st)(x \<mapsto> 1)\<rparr>)"
proof -
  let ?st' = "st\<lparr>state := (state st)(x \<mapsto> 1)\<rparr>"
  from assms(2) have "x \<in> dom (state st)" by auto
  then have d: "dom (state ?st') = dom (state st)" by auto
  have v: "visited ?st' = visited st"
    using assms(2) by (auto simp: visited_def)
  have s: "sorted_vertices ?st' = sorted_vertices st" by simp
  have r: "\<forall>i c. state ?st' i = Some c \<longrightarrow> c \<le> 2"
    using assms(1) by (auto simp: dfs_inv_def)
  show ?thesis
    using assms(1) r unfolding dfs_inv_def v d s by blast
qed

lemma dfs_inv_leave:
  assumes inv: "dfs_inv vs st" and x: "state st x = Some 1"
    and succ: "\<forall>t\<in>succs vs x. t \<in> visited st"
  shows "dfs_inv vs (st\<lparr>state := (state st)(x \<mapsto> 2),
                          sorted_vertices := sorted_vertices st @ [x]\<rparr>)"
proof -
  let ?st' = "st\<lparr>state := (state st)(x \<mapsto> 2), sorted_vertices := sorted_vertices st @ [x]\<rparr>"
  let ?xs = "sorted_vertices st"
  from x have "x \<in> dom (state st)" by auto
  then have d: "dom (state ?st') = dom (state st)" by auto
  have v: "visited ?st' = insert x (visited st)"
    by (auto simp: visited_def)
  from x have xn: "x \<notin> visited st" by (simp add: visited_def)
  with inv have xs: "x \<notin> set ?xs" by (simp add: dfs_inv_def)
  have ord: "t \<in> visited ?st' \<and> index_of (?xs @ [x]) t < index_of (?xs @ [x]) b"
    if b: "b \<in> visited ?st'" and t: "t \<in> succs vs b" for b t
  proof (cases "b = x")
    case True
    with succ t have tv: "t \<in> visited st" by auto
    with inv have "t \<in> set ?xs" by (simp add: dfs_inv_def)
    then have "index_of (?xs @ [x]) t < length ?xs"
      by (simp add: index_of_append index_of_less)
    with True tv xs show ?thesis by (simp add: v index_of_last)
  next
    case False
    with b have bv: "b \<in> visited st" by (simp add: v)
    with inv t have tv: "t \<in> visited st" and lt: "index_of ?xs t < index_of ?xs b"
      by (auto simp: dfs_inv_def)
    from inv bv tv have "b \<in> set ?xs" "t \<in> set ?xs" by (auto simp: dfs_inv_def)
    with lt tv show ?thesis by (simp add: v index_of_append)
  qed
  have rng: "\<forall>i c. state ?st' i = Some c \<longrightarrow> c \<le> 2"
    using inv by (auto simp: dfs_inv_def)
  show ?thesis
    unfolding dfs_inv_def
  proof (intro conjI)
    show "dom (state ?st') = {..<length vs}" using inv unfolding d by (simp add: dfs_inv_def)
    show "\<forall>i c. state ?st' i = Some c \<longrightarrow> c \<le> 2" by (rule rng)
    show "distinct (sorted_vertices ?st')" using inv xs by (simp add: dfs_inv_def)
    show "set (sorted_vertices ?st') = visited ?st'" using inv by (simp add: v dfs_inv_def)
    show "\<forall>b\<in>visited ?st'. \<forall>t\<in>succs vs b.
        t \<in> visited ?st' \<and> index_of (sorted_vertices ?st') t < index_of (sorted_vertices ?st') b"
      using ord by simp
  qed
qed

lemma extends_enter_leave:
  assumes x: "state st x = Some 0"
    and e: "extends (st\<lparr>state := (state st)(x \<mapsto> 1)\<rparr>) st2"
  shows "extends st (st2\<lparr>state := (state st2)(x \<mapsto> 2),
                          sorted_vertices := sorted_vertices st2 @ [x]\<rparr>)"
    and "state st2 x = Some 1"
proof -
  from e have g: "visiting st2 = insert x (visiting st)"
    using x by (auto simp: extends_def visiting_def)
  then show "state st2 x = Some 1" by (auto simp: visiting_def)
  from x have "x \<notin> visiting st" "x \<notin> visited st" by (simp_all add: visiting_def visited_def)
  moreover have "visited st \<subseteq> visited st2"
  proof
    fix i assume i: "i \<in> visited st"
    with x have "i \<noteq> x" by (auto simp: visited_def)
    with i have "i \<in> visited (st\<lparr>state := (state st)(x \<mapsto> 1)\<rparr>)" by (simp add: visited_def)
    with e show "i \<in> visited st2" by (auto simp: extends_def)
  qed
  moreover from e obtain ys where "sorted_vertices st2 = sorted_vertices st @ ys"
    by (auto simp: extends_def)
  ultimately show "extends st (st2\<lparr>state := (state st2)(x \<mapsto> 2),
                          sorted_vertices := sorted_vertices st2 @ [x]\<rparr>)"
    using g unfolding extends_def by (auto simp: visiting_def visited_def)
qed

lemma dfs_partial:
  "dfs_inv vs st \<Longrightarrow> dfs vs x st = Inr st' \<Longrightarrow>
     dfs_inv vs st' \<and> extends st st' \<and> x \<in> visited st'"
  "dfs_inv vs st \<Longrightarrow> dfs_edges vs node es st = Inr st' \<Longrightarrow>
     dfs_inv vs st' \<and> extends st st' \<and> (\<forall>e\<in>set es. source e = node \<longrightarrow> target e \<in> visited st')"
proof (induction vs x st and vs node es st arbitrary: st' and st' rule: dfs_dfs_edges.induct)
  case (1 vs node st)
  from "1.prems"(2) obtain c where c: "state st node = Some c" and c1: "c \<noteq> 1"
    by (auto split: option.splits if_splits)
  show ?case
  proof (cases "c = 0")
    case True
    let ?st1 = "st\<lparr>state := (state st)(node \<mapsto> 1)\<rparr>"
    from "1.prems"(2) c True obtain es st2 where
      es: "Vertex_edges vs node = Inr es"
      and r: "dfs_edges vs node es ?st1 = Inr st2"
      and s: "st' = st2\<lparr>state := (state st2)(node \<mapsto> 2),
                         sorted_vertices := sorted_vertices st2 @ [node]\<rparr>"
      by (auto split: sum.splits)
    from es have lt: "node < length vs" and es_def: "es = vedges (vs ! node)"
      by (auto simp: Vertex_edges_def split: if_splits)
    from c True have w: "state st node = Some 0" by simp
    have inv1: "dfs_inv vs ?st1" using "1.prems"(1) w by (rule dfs_inv_enter)
    from "1.IH"[OF c c1 True es inv1 r]
    have inv2: "dfs_inv vs st2" and ext: "extends ?st1 st2"
      and tg: "\<forall>e\<in>set es. source e = node \<longrightarrow> target e \<in> visited st2" by auto
    note el = extends_enter_leave[OF w ext]
    from tg have "\<forall>t\<in>succs vs node. t \<in> visited st2"
      by (auto simp: succs_def es_def)
    with inv2 el(2) have "dfs_inv vs st'" unfolding s by (intro dfs_inv_leave)
    moreover have "extends st st'" unfolding s by (rule el(1))
    moreover have "node \<in> visited st'" unfolding s by (simp add: visited_def)
    ultimately show ?thesis by simp
  next
    case False
    with "1.prems"(2) c c1 have eq: "st' = st" by simp
    from "1.prems"(1) c have "c \<le> 2" by (auto simp: dfs_inv_def)
    with False c1 have "c = 2" by simp
    with c have "node \<in> visited st" by (simp add: visited_def)
    with "1.prems"(1) show ?thesis by (simp add: eq extends_refl)
  qed
next
  case (2 vs node st)
  then show ?case by (simp add: extends_refl)
next
  case (3 vs node e es st)
  show ?case
  proof (cases "source e = node")
    case True
    with "3.prems"(2) obtain st1 where
      a: "dfs vs (target e) st = Inr st1" and b: "dfs_edges vs node es st1 = Inr st'"
      by (auto split: sum.splits)
    from "3.IH"(1)[OF True "3.prems"(1) a]
    have inv1: "dfs_inv vs st1" and e1: "extends st st1" and t1: "target e \<in> visited st1" by auto
    from "3.IH"(2)[OF True a inv1 b]
    have inv2: "dfs_inv vs st'" and e2: "extends st1 st'"
      and t2: "\<forall>e\<in>set es. source e = node \<longrightarrow> target e \<in> visited st'" by auto
    from e2 t1 have "target e \<in> visited st'" by (auto simp: extends_def)
    with inv2 t2 extends_trans[OF e1 e2] show ?thesis by simp
  next
    case False
    with "3.prems"(2) have b: "dfs_edges vs node es st = Inr st'" by simp
    from "3.IH"(3)[OF False "3.prems"(1) b] False show ?thesis by simp
  qed
qed


lemma dfs_total:
  "dfs_inv vs st \<Longrightarrow> closed vs \<Longrightarrow> acyclic (out_rel vs) \<Longrightarrow> x < length vs \<Longrightarrow>
     \<forall>g\<in>visiting st. (g, x) \<in> (out_rel vs)\<^sup>+ \<Longrightarrow> \<exists>st'. dfs vs x st = Inr st'"
  "dfs_inv vs st \<Longrightarrow> closed vs \<Longrightarrow> acyclic (out_rel vs) \<Longrightarrow> node < length vs \<Longrightarrow>
     set es \<subseteq> set (vedges (vs ! node)) \<Longrightarrow>
     \<forall>g\<in>visiting st. (g, node) \<in> (out_rel vs)\<^sup>* \<Longrightarrow> \<exists>st'. dfs_edges vs node es st = Inr st'"
proof (induction vs x st and vs node es st rule: dfs_dfs_edges.induct)
  case (1 vs node st)
  from "1.prems"(1,4) have "node \<in> dom (state st)" by (simp add: dfs_inv_def)
  then obtain c where c: "state st node = Some c" by auto
  have c1: "c \<noteq> 1"
  proof
    assume "c = 1"
    with c have "node \<in> visiting st" by (simp add: visiting_def)
    with "1.prems"(5) have "(node, node) \<in> (out_rel vs)\<^sup>+" by simp
    with "1.prems"(3) show False by (simp add: acyclic_def)
  qed
  show ?case
  proof (cases "c = 0")
    case True
    let ?st1 = "st\<lparr>state := (state st)(node \<mapsto> 1)\<rparr>"
    from c True have w: "state st node = Some 0" by simp
    have es: "Vertex_edges vs node = Inr (vedges (vs ! node))"
      using "1.prems"(4) by (simp add: Vertex_edges_def)
    have inv1: "dfs_inv vs ?st1" using "1.prems"(1) w by (rule dfs_inv_enter)
    have "visiting ?st1 = insert node (visiting st)" by (auto simp: visiting_def)
    with "1.prems"(5) have g1: "\<forall>g\<in>visiting ?st1. (g, node) \<in> (out_rel vs)\<^sup>*" by auto
    from "1.IH"[OF c c1 True es inv1 "1.prems"(2,3,4) subset_refl g1]
    obtain st2 where "dfs_edges vs node (vedges (vs ! node)) ?st1 = Inr st2" by auto
    with c True es show ?thesis by simp
  next
    case False
    with c c1 show ?thesis by simp
  qed
next
  case (2 vs node st)
  then show ?case by simp
next
  case (3 vs node e es st)
  from "3.prems"(5) have sub: "set es \<subseteq> set (vedges (vs ! node))"
    and mem: "e \<in> set (vedges (vs ! node))" by auto
  show ?case
  proof (cases "source e = node")
    case True
    with mem have s: "target e \<in> succs vs node" by (auto simp: succs_def)
    with "3.prems"(2,4) have lt: "target e < length vs" by (auto simp: closed_def)
    from s "3.prems"(4) have edge: "(node, target e) \<in> out_rel vs" by (simp add: out_rel_def)
    with "3.prems"(6) have g: "\<forall>g\<in>visiting st. (g, target e) \<in> (out_rel vs)\<^sup>+" by auto
    from "3.IH"(1)[OF True "3.prems"(1,2,3) lt g]
    obtain st1 where a: "dfs vs (target e) st = Inr st1" by auto
    from dfs_partial(1)[OF "3.prems"(1) a]
    have inv1: "dfs_inv vs st1" and "visiting st1 = visiting st" by (auto simp: extends_def)
    with "3.prems"(6) have g1: "\<forall>g\<in>visiting st1. (g, node) \<in> (out_rel vs)\<^sup>*" by simp
    from "3.IH"(2)[OF True a inv1 "3.prems"(2,3,4) sub g1] True a show ?thesis by simp
  next
    case False
    from "3.IH"(3)[OF False "3.prems"(1,2,3,4) sub "3.prems"(6)] False show ?thesis by simp
  qed
qed

lemma dfs_error:
  "dfs_inv vs st \<Longrightarrow> closed vs \<Longrightarrow> x < length vs \<Longrightarrow> dfs vs x st = Inl err \<Longrightarrow>
     err = cycle_error"
  "dfs_inv vs st \<Longrightarrow> closed vs \<Longrightarrow> node < length vs \<Longrightarrow>
     set es \<subseteq> set (vedges (vs ! node)) \<Longrightarrow> dfs_edges vs node es st = Inl err \<Longrightarrow>
     err = cycle_error"
proof (induction vs x st and vs node es st rule: dfs_dfs_edges.induct)
  case (1 vs node st)
  from "1.prems"(1,3) have "node \<in> dom (state st)" by (simp add: dfs_inv_def)
  then obtain c where c: "state st node = Some c" by auto
  show ?case
  proof (cases "c = 1")
    case True
    with c "1.prems"(4) show ?thesis by simp
  next
    case c1: False
    show ?thesis
    proof (cases "c = 0")
      case True
      let ?st1 = "st\<lparr>state := (state st)(node \<mapsto> 1)\<rparr>"
      from c True have w: "state st node = Some 0" by simp
      have es: "Vertex_edges vs node = Inr (vedges (vs ! node))"
        using "1.prems"(3) by (simp add: Vertex_edges_def)
      have inv1: "dfs_inv vs ?st1" using "1.prems"(1) w by (rule dfs_inv_enter)
      from "1.prems"(4) c True es
      have "dfs_edges vs node (vedges (vs ! node)) ?st1 = Inl err"
        by (auto split: sum.splits)
      with "1.IH"[OF c c1 True es inv1 "1.prems"(2,3) subset_refl] show ?thesis by simp
    next
      case False
      with c c1 "1.prems"(4) show ?thesis by simp
    qed
  qed
next
  case (2 vs node st)
  then show ?case by simp
next
  case (3 vs node e es st)
  from "3.prems"(4) have sub: "set es \<subseteq> set (vedges (vs ! node))"
    and mem: "e \<in> set (vedges (vs ! node))" by auto
  show ?case
  proof (cases "source e = node")
    case True
    with mem have "target e \<in> succs vs node" by (auto simp: succs_def)
    with "3.prems"(2,3) have lt: "target e < length vs" by (auto simp: closed_def)
    show ?thesis
    proof (cases "dfs vs (target e) st")
      case (Inl err')
      with "3.prems"(5) True have "err' = err" by simp
      with "3.IH"(1)[OF True "3.prems"(1,2) lt] Inl show ?thesis by simp
    next
      case (Inr st1)
      from dfs_partial(1)[OF "3.prems"(1) Inr] have inv1: "dfs_inv vs st1" by simp
      from "3.prems"(5) True Inr have "dfs_edges vs node es st1 = Inl err" by simp
      with "3.IH"(2)[OF True Inr inv1 "3.prems"(2,3) sub] show ?thesis by simp
    qed
  next
    case False
    with "3.prems"(5) have "dfs_edges vs node es st = Inl err" by simp
    with "3.IH"(3)[OF False "3.prems"(1,2,3) sub] show ?thesis by simp
  qed
qed

lemma visit_all_partial:
  "dfs_inv vs st \<Longrightarrow> visit_all vs ns st = Inr st' \<Longrightarrow>
     dfs_inv vs st' \<and> extends st st' \<and> set ns \<subseteq> visiting st' \<union> visited st'"
proof (induction ns arbitrary: st)
  case Nil
  then show ?case by (simp add: extends_refl)
next
  case (Cons node rest)
  from Cons.prems(2) obtain c where c: "state st node = Some c"
    by (auto split: option.splits)
  show ?case
  proof (cases "c = 0")
    case True
    with Cons.prems(2) c obtain st1 where a: "dfs vs node st = Inr st1"
      and b: "visit_all vs rest st1 = Inr st'" by (auto split: sum.splits)
    from dfs_partial(1)[OF Cons.prems(1) a]
    have inv1: "dfs_inv vs st1" and e1: "extends st st1" and n1: "node \<in> visited st1" by auto
    from Cons.IH[OF inv1 b]
    have inv2: "dfs_inv vs st'" and e2: "extends st1 st'"
      and r: "set rest \<subseteq> visiting st' \<union> visited st'" by auto
    from e2 n1 have "node \<in> visited st'" by (auto simp: extends_def)
    with inv2 r extends_trans[OF e1 e2] show ?thesis by simp
  next
    case False
    with Cons.prems(2) c have b: "visit_all vs rest st = Inr st'" by simp
    from Cons.IH[OF Cons.prems(1) b]
    have inv2: "dfs_inv vs st'" and e2: "extends st st'"
      and r: "set rest \<subseteq> visiting st' \<union> visited st'" by auto
    from Cons.prems(1) c have "c \<le> 2" by (auto simp: dfs_inv_def)
    with False c have "node \<in> visiting st \<union> visited st"
      by (cases "c = 1") (auto simp: visiting_def visited_def)
    with e2 have "node \<in> visiting st' \<union> visited st'" by (auto simp: extends_def)
    with inv2 e2 r show ?thesis by simp
  qed
qed

lemma visit_all_total:
  "dfs_inv vs st \<Longrightarrow> closed vs \<Longrightarrow> acyclic (out_rel vs) \<Longrightarrow> set ns \<subseteq> {..<length vs} \<Longrightarrow>
     visiting st = {} \<Longrightarrow> \<exists>st'. visit_all vs ns st = Inr st'"
proof (induction ns arbitrary: st)
  case Nil
  then show ?case by simp
next
  case (Cons node rest)
  from Cons.prems(4) have lt: "node < length vs" and sub: "set rest \<subseteq> {..<length vs}" by auto
  with Cons.prems(1) have "node \<in> dom (state st)" by (simp add: dfs_inv_def)
  then obtain c where c: "state st node = Some c" by auto
  show ?case
  proof (cases "c = 0")
    case True
    from Cons.prems(5) have "\<forall>g\<in>visiting st. (g, node) \<in> (out_rel vs)\<^sup>+" by simp
    from dfs_total(1)[OF Cons.prems(1,2,3) lt this]
    obtain st1 where a: "dfs vs node st = Inr st1" by auto
    from dfs_partial(1)[OF Cons.prems(1) a] Cons.prems(5)
    have "dfs_inv vs st1" and "visiting st1 = {}" by (auto simp: extends_def)
    from Cons.IH[OF this(1) Cons.prems(2,3) sub this(2)] c True a show ?thesis by simp
  next
    case False
    from Cons.IH[OF Cons.prems(1,2,3) sub Cons.prems(5)] c False show ?thesis by simp
  qed
qed

lemma visit_all_error:
  "dfs_inv vs st \<Longrightarrow> closed vs \<Longrightarrow> set ns \<subseteq> {..<length vs} \<Longrightarrow>
     visit_all vs ns st = Inl err \<Longrightarrow> err = cycle_error"
proof (induction ns arbitrary: st)
  case Nil
  then show ?case by simp
next
  case (Cons node rest)
  from Cons.prems(3) have lt: "node < length vs" and sub: "set rest \<subseteq> {..<length vs}" by auto
  with Cons.prems(1) have "node \<in> dom (state st)" by (simp add: dfs_inv_def)
  then obtain c where c: "state st node = Some c" by auto
  show ?case
  proof (cases "c = 0")
    case True
    show ?thesis
    proof (cases "dfs vs node st")
      case (Inl err')
      with Cons.prems(4) c True have "err' = err" by simp
      with dfs_error(1)[OF Cons.prems(1,2) lt] Inl show ?thesis by simp
    next
      case (Inr st1)
      from dfs_partial(1)[OF Cons.prems(1) Inr] have inv1: "dfs_inv vs st1" by simp
      from Cons.prems(4) c True Inr have "visit_all vs rest st1 = Inl err" by simp
      with Cons.IH[OF inv1 Cons.prems(2) sub] show ?thesis by simp
    qed
  next
    case False
    with Cons.prems(4) c have "visit_all vs rest st = Inl err" by simp
    with Cons.IH[OF Cons.prems(1,2) sub] show ?thesis by simp
  qed
qed

definition initial_state :: "ref list \<Rightarrow> dfs_state" where
  "initial_state nodes = \<lparr>state = map_of (map (\<lambda>node. (node, 0)) nodes), sorted_vertices = []\<rparr>"

lemma initial_state_lookup:
  "state (initial_state nodes) i = (if i \<in> set nodes then Some 0 else None)"
  by (induction nodes) (auto simp: initial_state_def)

lemma initial_state_inv: "dfs_inv vs (initial_state [0..<length vs])"
  unfolding dfs_inv_def
  by (auto simp: initial_state_lookup visited_def dom_def)
     (simp_all add: initial_state_def)

lemma initial_state_visiting: "visiting (initial_state nodes) = {}"
  by (simp add: visiting_def initial_state_lookup)

text \<open>What a completed run of the outer loop from the initial state has established.\<close>

lemma visit_all_sorted:
  assumes run: "visit_all vs [0..<length vs] (initial_state [0..<length vs]) = Inr st"
  shows "distinct (sorted_vertices st)"
    and "set (sorted_vertices st) = {..<length vs}"
    and "\<forall>(s, t)\<in>out_rel vs. t < length vs \<and>
           index_of (sorted_vertices st) t < index_of (sorted_vertices st) s"
proof -
  from visit_all_partial[OF initial_state_inv run]
  have inv: "dfs_inv vs st" and ext: "extends (initial_state [0..<length vs]) st"
    and all: "set [0..<length vs] \<subseteq> visiting st \<union> visited st" by auto
  from ext have "visiting st = {}" by (simp add: extends_def initial_state_visiting)
  with all have "{..<length vs} \<subseteq> visited st" by auto
  moreover from inv have "visited st \<subseteq> {..<length vs}"
    by (auto simp: dfs_inv_def visited_def)
  ultimately have v: "visited st = {..<length vs}" by auto
  from inv show "distinct (sorted_vertices st)" by (simp add: dfs_inv_def)
  from inv v show "set (sorted_vertices st) = {..<length vs}" by (simp add: dfs_inv_def)
  from inv v show "\<forall>(s, t)\<in>out_rel vs. t < length vs \<and>
           index_of (sorted_vertices st) t < index_of (sorted_vertices st) s"
    by (auto simp: dfs_inv_def out_rel_def)
qed

lemma visit_all_acyclic:
  assumes "visit_all vs [0..<length vs] (initial_state [0..<length vs]) = Inr st"
  shows "acyclic (out_rel vs)"
proof (rule acyclicI_order)
  fix a b assume "(a, b) \<in> out_rel vs"
  with visit_all_sorted(3)[OF assms]
  show "index_of (sorted_vertices st) b < index_of (sorted_vertices st) a" by auto
qed

section \<open>Well-formedness of constructed graphs\<close>

text \<open>The edges incident to the vertex at address \<open>i\<close>, in registration order.\<close>

definition incident :: "ref \<Rightarrow> edge list \<Rightarrow> edge list" where
  "incident i es =
     concat (map (\<lambda>e. (if source e = i then [e] else []) @ (if target e = i then [e] else [])) es)"

definition edge_rel :: "graph \<Rightarrow> (ref \<times> ref) set" where
  "edge_rel g = {(source e, target e) |e. e \<in> set (edges g)}"

lemma build_vertex_no_edges: "build_vertex env top_level n = Inr v \<Longrightarrow> vedges v = []"
  by (auto simp: build_vertex_def set_top_level_def new_vertex_def split: sum.splits)

lemma build_vertices_loop_no_edges:
  "build_vertices_loop env top_level ns acc = Inr vs \<Longrightarrow> \<forall>v\<in>set acc. vedges v = [] \<Longrightarrow>
   \<forall>v\<in>set vs. vedges v = []"
proof (induction ns arbitrary: acc)
  case Nil
  then show ?case by simp
next
  case (Cons n ns)
  from Cons.prems(1) obtain v where v: "build_vertex env top_level n = Inr v"
    and rest: "build_vertices_loop env top_level ns (acc @ [v]) = Inr vs"
    by (auto split: sum.splits)
  from v Cons.prems(2) have "\<forall>x\<in>set (acc @ [v]). vedges x = []"
    by (auto dest: build_vertex_no_edges)
  with rest show ?case by (rule Cons.IH)
qed

lemma build_vertices_no_edges:
  "build_vertices env top_level ns = Inr vs \<Longrightarrow> \<forall>v\<in>set vs. vedges v = []"
  unfolding build_vertices_def by (erule build_vertices_loop_no_edges) simp

lemma register_edges_nth:
  "\<forall>e\<in>set ces. valid_edge vs e \<Longrightarrow> i < length vs \<Longrightarrow>
   register_edges ces vs ! i = (vs ! i)\<lparr>vedges := vedges (vs ! i) @ incident i ces\<rparr>"
proof (induction ces arbitrary: vs)
  case Nil
  then show ?case by (simp add: incident_def)
next
  case (Cons e ces)
  let ?vs1 = "update_at (target e) (add_edge e) (update_at (source e) (add_edge e) vs)"
  from Cons.prems have "\<forall>x\<in>set ces. valid_edge ?vs1 x" and i1: "i < length ?vs1"
    by (simp_all add: valid_edge_def)
  from Cons.IH[OF this]
  have "register_edges (e # ces) vs ! i = (?vs1 ! i)\<lparr>vedges := vedges (?vs1 ! i) @ incident i ces\<rparr>"
    by simp
  also have "\<dots> = (vs ! i)\<lparr>vedges := vedges (vs ! i) @ incident i (e # ces)\<rparr>"
    using Cons.prems(2) by (simp add: update_at_nth add_edge_def incident_def)
  finally show ?case .
qed

lemma constructed_vedges:
  assumes "Graph_init env nodes es = Inr g" "i < length (vertices g)"
  shows "vedges (vertices g ! i) = incident i (edges g)"
proof -
  from assms(1) obtain nodes' es' where "build_graph env (top_level_ids nodes) nodes' es' = Inr g"
    by (auto simp: Graph_init_def split: prod.splits)
  then obtain vs ces where bv: "build_vertices env (top_level_ids nodes) nodes' = Inr vs"
    and be: "build_edges vs es' = Inr ces"
    and v: "vertices g = build_node_params env (register_edges ces vs)" and e: "edges g = ces"
    by (rule build_graph_Inr)
  from assms(2) have i: "i < length vs" by (simp add: v)
  with build_vertices_no_edges[OF bv] have "vedges (vs ! i) = []" by simp
  with register_edges_nth[OF build_edges_valid[OF be] i]
  have "vedges (register_edges ces vs ! i) = incident i ces" by simp
  with i show ?thesis by (simp add: v e build_node_params_fields)
qed

lemma constructed_valid:
  assumes "Graph_init env nodes es = Inr g" "e \<in> set (edges g)"
  shows "source e < length (vertices g)" "target e < length (vertices g)"
proof -
  from assms(1) obtain nodes' es' where "build_graph env (top_level_ids nodes) nodes' es' = Inr g"
    by (auto simp: Graph_init_def split: prod.splits)
  then obtain vs ces where be: "build_edges vs es' = Inr ces"
    and v: "vertices g = build_node_params env (register_edges ces vs)" and e: "edges g = ces"
    by (rule build_graph_Inr)
  from build_edges_valid[OF be] assms(2)
  show "source e < length (vertices g)" "target e < length (vertices g)"
    by (simp_all add: v e valid_edge_def)
qed

lemma constructed_succs:
  assumes "Graph_init env nodes es = Inr g" "i < length (vertices g)"
  shows "succs (vertices g) i = {target e |e. e \<in> set (edges g) \<and> source e = i}"
  unfolding succs_def constructed_vedges[OF assms] by (auto simp: incident_def)

lemma constructed_out_rel:
  assumes "Graph_init env nodes es = Inr g"
  shows "out_rel (vertices g) = edge_rel g"
proof -
  have "out_rel (vertices g) =
      {(i, t). i < length (vertices g) \<and> t \<in> {target e |e. e \<in> set (edges g) \<and> source e = i}}"
    unfolding out_rel_def using constructed_succs[OF assms] by auto
  also have "\<dots> = edge_rel g"
    unfolding edge_rel_def using constructed_valid(1)[OF assms] by auto
  finally show ?thesis .
qed

lemma constructed_closed:
  assumes "Graph_init env nodes es = Inr g"
  shows "closed (vertices g)"
  unfolding closed_def
  using constructed_succs[OF assms] constructed_valid(2)[OF assms] by auto

section \<open>Identifiers of a constructed graph are unique\<close>

text \<open>
  An edge is attached to the first vertex that carries the identifier it names, and
  validation rejects a vertex without edges: the vertices of a constructed graph have
  pairwise different identifiers. So comparing vertex objects by address and comparing
  them by identifier agree on every constructed graph.
\<close>

definition first_with_id :: "vertex list \<Rightarrow> ref \<Rightarrow> bool" where
  "first_with_id vs i \<longleftrightarrow> (\<forall>j<i. vid (vs ! j) \<noteq> vid (vs ! i))"

lemma get_vertex_first: "get_vertex vs node_id = Some i \<Longrightarrow> first_with_id vs i"
  unfolding get_vertex_def first_with_id_def by (auto simp: find_Some_iff)

lemma build_edge_first:
  "build_edge vs e = Inr ce \<Longrightarrow> first_with_id vs (source ce) \<and> first_with_id vs (target ce)"
  by (auto simp: build_edge_def ContractEdge_def split: sum.splits option.splits
      dest: get_vertex_first)

lemma build_edges_loop_first:
  "build_edges_loop vs es acc = Inr ces \<Longrightarrow>
   \<forall>e\<in>set acc. first_with_id vs (source e) \<and> first_with_id vs (target e) \<Longrightarrow>
   \<forall>e\<in>set ces. first_with_id vs (source e) \<and> first_with_id vs (target e)"
proof (induction es arbitrary: acc)
  case Nil
  then show ?case by simp
next
  case (Cons e es)
  from Cons.prems(1) obtain ce where ce: "build_edge vs e = Inr ce"
    and rest: "build_edges_loop vs es (acc @ [ce]) = Inr ces"
    by (auto split: sum.splits)
  from build_edge_first[OF ce] Cons.prems(2)
  have "\<forall>x\<in>set (acc @ [ce]). first_with_id vs (source x) \<and> first_with_id vs (target x)"
    by auto
  with rest show ?case by (rule Cons.IH)
qed

lemma incident_Nil_iff: "incident i es = [] \<longleftrightarrow> (\<forall>e\<in>set es. source e \<noteq> i \<and> target e \<noteq> i)"
  by (induction es) (auto simp: incident_def)

lemma distinct_first_with_id:
  assumes "\<forall>i<length vs. first_with_id vs i"
  shows "distinct (map vid vs)"
  unfolding distinct_conv_nth
proof (intro allI impI)
  fix i j
  assume i: "i < length (map vid vs)" and j: "j < length (map vid vs)" and ne: "i \<noteq> j"
  show "map vid vs ! i \<noteq> map vid vs ! j"
  proof (cases "i < j")
    case True
    with assms j have "vid (vs ! i) \<noteq> vid (vs ! j)" by (auto simp: first_with_id_def)
    with i j show ?thesis by simp
  next
    case False
    with ne have "j < i" by simp
    with assms i have "vid (vs ! j) \<noteq> vid (vs ! i)" by (auto simp: first_with_id_def)
    with i j show ?thesis by simp
  qed
qed

lemma register_edges_vid:
  "i < length vs \<Longrightarrow> vid (register_edges ces vs ! i) = vid (vs ! i)"
proof (induction ces arbitrary: vs)
  case Nil
  then show ?case by simp
next
  case (Cons e ces)
  let ?vs1 = "update_at (target e) (add_edge e) (update_at (source e) (add_edge e) vs)"
  from Cons.prems have "vid (register_edges ces ?vs1 ! i) = vid (?vs1 ! i)"
    by (intro Cons.IH) simp
  also have "\<dots> = vid (vs ! i)"
    using Cons.prems by (simp add: update_at_nth add_edge_def)
  finally show ?case by simp
qed

lemma constructed_distinct_ids:
  assumes "Graph_init env nodes es = Inr g"
  shows "distinct (map vid (vertices g))"
proof -
  from assms obtain nodes' es' where "build_graph env (top_level_ids nodes) nodes' es' = Inr g"
    by (auto simp: Graph_init_def split: prod.splits)
  then obtain vs ces where be: "build_edges vs es' = Inr ces"
    and val: "validate_nodes (build_node_params env (register_edges ces vs)) = Inr ()"
    and v: "vertices g = build_node_params env (register_edges ces vs)" and e: "edges g = ces"
    by (rule build_graph_Inr)
  have len: "length (vertices g) = length vs" by (simp add: v)
  have ids: "map vid (vertices g) = map vid vs"
    by (rule nth_equalityI) (simp_all add: len, simp add: v build_node_params_fields register_edges_vid)
  show ?thesis
  proof (cases "length vs \<le> 1")
    case True
    then have "length (map vid vs) \<le> 1" by simp
    then have "distinct (map vid vs)"
      by (cases "map vid vs") (auto simp: Suc_le_eq)
    then show ?thesis by (simp add: ids)
  next
    case False
    with val have "validate_loop (vertices g) = Inr ()"
      by (simp add: validate_nodes_def v split: if_splits)
    then have ne: "\<forall>x\<in>set (vertices g). vedges x \<noteq> []"
      by (simp add: validate_loop_ok_iff)
    from be have fst: "\<forall>x\<in>set ces. first_with_id vs (source x) \<and> first_with_id vs (target x)"
      unfolding build_edges_def by (rule build_edges_loop_first) simp
    have "first_with_id vs i" if i: "i < length vs" for i
    proof -
      from i ne have "vedges (vertices g ! i) \<noteq> []" by (simp add: len)
      then have "incident i ces \<noteq> []"
        using constructed_vedges[OF assms, of i] i by (simp add: len e)
      then obtain x where "x \<in> set ces" "source x = i \<or> target x = i"
        by (auto simp: incident_Nil_iff)
      with fst show ?thesis by auto
    qed
    then have "distinct (map vid vs)" by (intro distinct_first_with_id) simp
    then show ?thesis by (simp add: ids)
  qed
qed

section \<open>Topological sort of constructed graphs\<close>

lemma topological_sort_unfold:
  "topological_sort g =
     (case visit_all (vertices g) [0..<length (vertices g)]
             (initial_state [0..<length (vertices g)]) of
        Inl e \<Rightarrow> Inl e
      | Inr st \<Rightarrow> Inr (rev (sorted_vertices st)))"
  by (simp add: topological_sort_def Graph_getattr_def initial_state_def)

lemma topological_sort_returns_iff_acyclic:
  assumes "Graph_init env nodes es = Inr g"
  shows "(\<exists>order. topological_sort g = Inr order) \<longleftrightarrow> acyclic (edge_rel g)"
    and "topological_sort g = Inl cycle_error \<longleftrightarrow> \<not> acyclic (edge_rel g)"
proof -
  let ?vs = "vertices g"
  let ?run = "visit_all ?vs [0..<length ?vs] (initial_state [0..<length ?vs])"
  note rel = constructed_out_rel[OF assms]
  have a: "acyclic (edge_rel g)" if "?run = Inr st" for st
    using visit_all_acyclic[OF that] by (simp add: rel)
  have sub: "set [0..<length ?vs] \<subseteq> {..<length ?vs}" by auto
  have b: "\<exists>st. ?run = Inr st" if "acyclic (edge_rel g)"
    using that
    by (intro visit_all_total[OF initial_state_inv constructed_closed[OF assms] _ sub])
       (simp_all add: rel initial_state_visiting)
  have c: "err = cycle_error" if "?run = Inl err" for err
    using that by (rule visit_all_error[OF initial_state_inv constructed_closed[OF assms] sub])
  show "(\<exists>order. topological_sort g = Inr order) \<longleftrightarrow> acyclic (edge_rel g)"
    unfolding topological_sort_unfold using a b by (cases ?run) auto
  show "topological_sort g = Inl cycle_error \<longleftrightarrow> \<not> acyclic (edge_rel g)"
    unfolding topological_sort_unfold using a b c by (cases ?run) auto
qed

text \<open>
  C1. For every constructed graph whose edge relation is acyclic, \<open>topological_sort\<close>
  returns a list as long as the vertex collection that holds every vertex exactly once;
  for every edge of the graph the source stands at a smaller index than the target; and
  the list is the reverse of \<open>sorted_vertices\<close>, to which \<open>dfs\<close> appends each vertex when
  it is done.
\<close>

theorem topological_sort_orders_acyclic_graph:
  assumes "Graph_init env nodes es = Inr g" and "acyclic (edge_rel g)"
  shows "\<exists>order st.
           topological_sort g = Inr order \<and>
           length order = length (vertices g) \<and>
           distinct order \<and> set order = {..<length (vertices g)} \<and>
           (\<forall>e\<in>set (edges g). index_of order (source e) < index_of order (target e)) \<and>
           visit_all (vertices g) [0..<length (vertices g)]
             (initial_state [0..<length (vertices g)]) = Inr st \<and>
           order = rev (sorted_vertices st)"
proof -
  let ?vs = "vertices g"
  from assms obtain order where o: "topological_sort g = Inr order"
    using topological_sort_returns_iff_acyclic(1)[of env nodes es g] by auto
  then obtain st where run: "visit_all ?vs [0..<length ?vs] (initial_state [0..<length ?vs]) = Inr st"
    and order: "order = rev (sorted_vertices st)"
    unfolding topological_sort_unfold by (auto split: sum.splits)
  note s = visit_all_sorted[OF run]
  have d: "distinct order" and m: "set order = {..<length ?vs}"
    using s(1,2) by (simp_all add: order)
  from d m have "card {..<length ?vs} = length order" by (metis distinct_card)
  then have len: "length order = length ?vs" by simp
  have ord: "index_of order (source e) < index_of order (target e)" if e: "e \<in> set (edges g)" for e
  proof -
    let ?xs = "sorted_vertices st"
    from e have "(source e, target e) \<in> out_rel ?vs"
      by (auto simp: constructed_out_rel[OF assms(1)] edge_rel_def)
    with s(3) have lt: "index_of ?xs (target e) < index_of ?xs (source e)" by auto
    from e constructed_valid[OF assms(1)] s(2)
    have si: "source e \<in> set ?xs" and ti: "target e \<in> set ?xs" by auto
    from index_of_less[OF si] lt show ?thesis
      unfolding order index_of_rev[OF s(1) si] index_of_rev[OF s(1) ti] by linarith
  qed
  from o len d m ord run order show ?thesis by blast
qed

lemma edge_rel_code: "edge_rel g = set (map (\<lambda>e. (source e, target e)) (edges g))"
  by (auto simp: edge_rel_def)

lemmas sort_defs = topological_sort_def Graph_getattr_def Vertex_edges_def cycle_error_def
  layered_topological_sort_def Graph_attributes_def pad_layers.simps

theorem topological_sort_orders_acyclic_graph_witness:
  "\<exists>g. Graph_init example_env abc_nodes abc_edges = Inr g \<and>
       acyclic (edge_rel g) \<and>
       topological_sort g = Inr [0, 1, 2] \<and>
       map vid (vertices g) = [''A'', ''B'', ''C''] \<and>
       (\<forall>e\<in>set (edges g). index_of [0, 1, 2] (source e) < index_of [0, 1, 2] (target e))"
proof -
  obtain g where g: "Graph_init example_env abc_nodes abc_edges = Inr g"
    and ts: "topological_sort g = Inr [0, 1, 2]"
    and ids: "map vid (vertices g) = [''A'', ''B'', ''C'']"
    by (simp add: eval_defs sort_defs)
  from g have "map (\<lambda>e. (source e, target e)) (edges g) = [(0, 1), (1, 2)]"
    by (auto simp: eval_defs)
  then have er: "edge_rel g = {(0, 1), (1, 2)}"
    by (simp add: edge_rel_code)
  have ac: "acyclic (edge_rel g)"
    unfolding er by (rule acyclicI_order[where f = "\<lambda>i. 2 - i"]) auto
  from topological_sort_orders_acyclic_graph[OF g ac] ts
  have "\<forall>e\<in>set (edges g). index_of [0, 1, 2] (source e) < index_of [0, 1, 2] (target e)"
    by auto
  with g ac ts ids show ?thesis by (intro exI[of _ g] conjI)
qed

section \<open>The layered traversal over the vertex collection\<close>

text \<open>
  What the nested \<open>dfs\<close> of \<open>layered_topological_sort\<close> does once it is given the
  vertex collection: the facts below hold for \<open>layered_visit_all\<close> started on all
  addresses of a constructed graph.
\<close>

lemma pad_layers_eq: "pad_layers ls l = ls @ replicate (Suc l - length ls) []"
proof (induction ls l rule: pad_layers.induct)
  case (1 ls l)
  show ?case
  proof (cases "length ls \<le> l")
    case True
    then have "Suc l - length ls = Suc (l - length ls)" by simp
    moreover have "pad_layers ls l = pad_layers (ls @ [[]]) l"
      using True by (subst pad_layers.simps) simp
    ultimately show ?thesis
      using "1.IH"[OF True] True by (simp add: Suc_diff_le)
  next
    case False
    then show ?thesis by (subst pad_layers.simps) simp
  qed
qed

lemma pad_layers_length: "l < length (pad_layers ls l)"
  by (simp add: pad_layers_eq)

lemma pad_layers_concat: "concat (pad_layers ls l) = concat ls"
  by (simp add: pad_layers_eq)

lemma pad_layers_nth:
  "k < length (pad_layers ls l) \<Longrightarrow>
   pad_layers ls l ! k = (if k < length ls then ls ! k else [])"
  by (simp add: pad_layers_eq nth_append)

lemma concat_snoc_at:
  assumes "l < length xs"
  shows "concat (xs[l := xs ! l @ [a]]) =
         concat (take l xs) @ xs ! l @ [a] @ concat (drop (Suc l) xs)"
    and "concat xs = concat (take l xs) @ xs ! l @ concat (drop (Suc l) xs)"
proof -
  from assms have "xs[l := xs ! l @ [a]] = take l xs @ (xs ! l @ [a]) # drop (Suc l) xs"
    by (rule upd_conv_take_nth_drop)
  then show "concat (xs[l := xs ! l @ [a]]) =
         concat (take l xs) @ xs ! l @ [a] @ concat (drop (Suc l) xs)" by simp
  from assms have "xs = take l xs @ xs ! l # drop (Suc l) xs"
    by (simp add: id_take_nth_drop)
  then have "concat xs = concat (take l xs @ xs ! l # drop (Suc l) xs)" by simp
  then show "concat xs = concat (take l xs) @ xs ! l @ concat (drop (Suc l) xs)" by simp
qed

lemma set_concat_snoc_at:
  "l < length xs \<Longrightarrow> set (concat (xs[l := xs ! l @ [a]])) = insert a (set (concat xs))"
  by (subst concat_snoc_at(1), assumption, subst (2) concat_snoc_at(2), assumption) auto

lemma distinct_concat_snoc_at:
  assumes "l < length xs" "distinct (concat xs)" "a \<notin> set (concat xs)"
  shows "distinct (concat (xs[l := xs ! l @ [a]]))"
proof -
  from assms(2,3) have "distinct (concat (take l xs) @ xs ! l @ concat (drop (Suc l) xs))"
    and "a \<notin> set (concat (take l xs) @ xs ! l @ concat (drop (Suc l) xs))"
    using concat_snoc_at(2)[OF assms(1)] by simp_all
  then show ?thesis
    unfolding concat_snoc_at(1)[OF assms(1)] by auto
qed

definition lvisiting :: "layered_state \<Rightarrow> ref set" where
  "lvisiting st = {i. lstate st i = Some 1}"

definition lvisited :: "layered_state \<Rightarrow> ref set" where
  "lvisited st = {i. lstate st i = Some 2}"

definition layered_inv :: "vertex list \<Rightarrow> layered_state \<Rightarrow> bool" where
  "layered_inv vs st \<longleftrightarrow>
     dom (lstate st) = {..<length vs} \<and>
     (\<forall>i c. lstate st i = Some c \<longrightarrow> c \<le> 2) \<and>
     length (heap st) = length vs \<and>
     (\<forall>i<length vs. vedges (heap st ! i) = vedges (vs ! i)) \<and>
     distinct (concat (layers st)) \<and>
     set (concat (layers st)) = lvisited st \<and>
     (\<forall>b\<in>lvisited st. succs vs b \<subseteq> lvisited st) \<and>
     (\<forall>l<length (layers st). \<forall>i\<in>set (layers st ! l). layer (heap st ! i) = Some l)"

definition lextends :: "layered_state \<Rightarrow> layered_state \<Rightarrow> bool" where
  "lextends st st' \<longleftrightarrow> lvisiting st' = lvisiting st \<and> lvisited st \<subseteq> lvisited st'"

lemma lextends_refl: "lextends st st"
  by (simp add: lextends_def)

lemma lextends_trans: "lextends a b \<Longrightarrow> lextends b c \<Longrightarrow> lextends a c"
  by (auto simp: lextends_def)

lemma layered_inv_enter:
  assumes "layered_inv vs st" "lstate st x = Some 0"
  shows "layered_inv vs (st\<lparr>lstate := (lstate st)(x \<mapsto> 1)\<rparr>)"
proof -
  let ?st' = "st\<lparr>lstate := (lstate st)(x \<mapsto> 1)\<rparr>"
  from assms(2) have "x \<in> dom (lstate st)" by auto
  then have d: "dom (lstate ?st') = dom (lstate st)" by auto
  have v: "lvisited ?st' = lvisited st"
    using assms(2) by (auto simp: lvisited_def)
  have s: "layers ?st' = layers st" "heap ?st' = heap st" by simp_all
  have r: "\<forall>i c. lstate ?st' i = Some c \<longrightarrow> c \<le> 2"
    using assms(1) by (auto simp: layered_inv_def)
  show ?thesis
    using assms(1) r unfolding layered_inv_def v d s by blast
qed

lemma layered_inv_leave:
  assumes inv: "layered_inv vs st" and x: "lstate st x = Some 1"
    and succ: "succs vs x \<subseteq> lvisited st"
  shows "layered_inv vs (place x l (st\<lparr>lstate := (lstate st)(x \<mapsto> 2)\<rparr>))"
    and "layer (heap (place x l (st\<lparr>lstate := (lstate st)(x \<mapsto> 2)\<rparr>)) ! x) = Some l"
    and "x \<in> set (layers (place x l (st\<lparr>lstate := (lstate st)(x \<mapsto> 2)\<rparr>)) ! l)"
    and "l < length (layers (place x l (st\<lparr>lstate := (lstate st)(x \<mapsto> 2)\<rparr>)))"
proof -
  let ?st' = "place x l (st\<lparr>lstate := (lstate st)(x \<mapsto> 2)\<rparr>)"
  let ?ls = "pad_layers (layers st) l"
  from x have xd: "x \<in> dom (lstate st)" by auto
  with inv have xlt: "x < length vs" by (auto simp: layered_inv_def)
  with inv have xh: "x < length (heap st)" by (simp add: layered_inv_def)
  have ls: "layers ?st' = ?ls[l := ?ls ! l @ [x]]"
    and hp: "heap ?st' = (heap st)[x := (heap st ! x)\<lparr>layer := Some l\<rparr>]"
    and lst: "lstate ?st' = (lstate st)(x \<mapsto> 2)"
    using xh by (simp_all add: place_def Let_def update_at_def)
  from xd have d: "dom (lstate ?st') = dom (lstate st)" unfolding lst by auto
  have v: "lvisited ?st' = insert x (lvisited st)"
    unfolding lvisited_def lst by auto
  from x have xn: "x \<notin> lvisited st" by (simp add: lvisited_def)
  with inv have xs: "x \<notin> set (concat (layers st))" by (simp add: layered_inv_def)
  note pl = pad_layers_length[of l "layers st"]
  show "layer (heap ?st' ! x) = Some l" using xh by (simp add: hp)
  show "x \<in> set (layers ?st' ! l)" using pl by (simp add: ls)
  show "l < length (layers ?st')" using pl by (simp add: ls)
  have lay: "layer (heap ?st' ! i) = Some k"
    if k: "k < length (layers ?st')" and i: "i \<in> set (layers ?st' ! k)" for k i
  proof (cases "i = x")
    case True
    have "k = l"
    proof (rule ccontr)
      assume "k \<noteq> l"
      with k i have "i \<in> set (?ls ! k)" and "k < length ?ls" by (simp_all add: ls)
      then have "i \<in> set (concat ?ls)" using nth_mem[of k ?ls] by auto
      with xs True show False by (simp add: pad_layers_concat)
    qed
    with True xh show ?thesis by (simp add: hp)
  next
    case False
    from k have k': "k < length ?ls" by (simp add: ls)
    from i False have "i \<in> set (?ls ! k)"
      using k' by (cases "k = l") (simp_all add: ls)
    with k' have "k < length (layers st)" and "i \<in> set (layers st ! k)"
      by (auto simp: pad_layers_nth split: if_splits)
    with inv have "layer (heap st ! i) = Some k" by (simp add: layered_inv_def)
    with False show ?thesis by (simp add: hp)
  qed
  show "layered_inv vs ?st'"
    unfolding layered_inv_def
  proof (intro conjI)
    show "dom (lstate ?st') = {..<length vs}" using inv unfolding d by (simp add: layered_inv_def)
    show "\<forall>i c. lstate ?st' i = Some c \<longrightarrow> c \<le> 2"
      using inv unfolding lst by (auto simp: layered_inv_def)
    show "length (heap ?st') = length vs" using inv by (simp add: hp layered_inv_def)
    show "\<forall>i<length vs. vedges (heap ?st' ! i) = vedges (vs ! i)"
    proof (intro allI impI)
      fix i assume i: "i < length vs"
      with inv have e: "vedges (heap st ! i) = vedges (vs ! i)" and h: "i < length (heap st)"
        by (simp_all add: layered_inv_def)
      show "vedges (heap ?st' ! i) = vedges (vs ! i)"
        using e h by (cases "i = x") (simp_all add: hp)
    qed
    show "distinct (concat (layers ?st'))"
    proof -
      from inv have "distinct (concat (layers st))"
        unfolding layered_inv_def by blast
      then have "distinct (concat ?ls)" by (simp only: pad_layers_concat)
      moreover have "x \<notin> set (concat ?ls)" unfolding pad_layers_concat by (rule xs)
      ultimately show ?thesis unfolding ls by (intro distinct_concat_snoc_at[OF pl])
    qed
    show "set (concat (layers ?st')) = lvisited ?st'"
    proof -
      from inv have vis: "set (concat (layers st)) = lvisited st"
        unfolding layered_inv_def by blast
      have "set (concat (?ls[l := ?ls ! l @ [x]])) = insert x (set (concat ?ls))"
        by (rule set_concat_snoc_at[OF pl])
      also have "\<dots> = insert x (lvisited st)"
        by (simp only: pad_layers_concat vis)
      finally show ?thesis unfolding ls v .
    qed
    show "\<forall>b\<in>lvisited ?st'. succs vs b \<subseteq> lvisited ?st'"
      unfolding v using inv succ by (auto simp: layered_inv_def)
    show "\<forall>l<length (layers ?st'). \<forall>i\<in>set (layers ?st' ! l). layer (heap ?st' ! i) = Some l"
      using lay by blast
  qed
qed

lemma lextends_enter_leave:
  assumes x: "lstate st x = Some 0"
    and e: "lextends (st\<lparr>lstate := (lstate st)(x \<mapsto> 1)\<rparr>) st2"
  shows "lextends st (place x l (st2\<lparr>lstate := (lstate st2)(x \<mapsto> 2)\<rparr>))"
    and "lstate st2 x = Some 1"
proof -
  let ?st' = "place x l (st2\<lparr>lstate := (lstate st2)(x \<mapsto> 2)\<rparr>)"
  have lst: "lstate ?st' = (lstate st2)(x \<mapsto> 2)" by (simp add: place_def Let_def)
  from e have g: "lvisiting st2 = insert x (lvisiting st)"
    using x by (auto simp: lextends_def lvisiting_def)
  then show "lstate st2 x = Some 1" by (auto simp: lvisiting_def)
  from x have xn: "x \<notin> lvisiting st" "x \<notin> lvisited st"
    by (simp_all add: lvisiting_def lvisited_def)
  have sub: "lvisited st \<subseteq> lvisited st2"
  proof
    fix i assume i: "i \<in> lvisited st"
    with x have "i \<noteq> x" by (auto simp: lvisited_def)
    with i have "i \<in> lvisited (st\<lparr>lstate := (lstate st)(x \<mapsto> 1)\<rparr>)" by (simp add: lvisited_def)
    with e show "i \<in> lvisited st2" by (auto simp: lextends_def)
  qed
  have "lvisiting ?st' = lvisiting st2 - {x}"
    unfolding lvisiting_def lst by auto
  with g xn have a: "lvisiting ?st' = lvisiting st" by auto
  have "lvisited ?st' = insert x (lvisited st2)"
    unfolding lvisited_def lst by auto
  with sub have b: "lvisited st \<subseteq> lvisited ?st'" by auto
  from a b show "lextends st ?st'" by (simp add: lextends_def)
qed

lemma layered_partial:
  "layered_inv vs st \<Longrightarrow> layered_dfs node l st = Inr st' \<Longrightarrow>
     layered_inv vs st' \<and> lextends st st' \<and> node \<in> lvisited st' \<and>
     (lstate st node = Some 0 \<longrightarrow>
        layer (heap st' ! node) = Some l \<and> l < length (layers st') \<and>
        node \<in> set (layers st' ! l))"
  "layered_inv vs st \<Longrightarrow> layered_dfs_edges node l es st = Inr st' \<Longrightarrow>
     layered_inv vs st' \<and> lextends st st' \<and>
     (\<forall>e\<in>set es. source e = node \<longrightarrow> target e \<in> lvisited st')"
proof (induction node l st and node l es st arbitrary: st' and st'
       rule: layered_dfs_layered_dfs_edges.induct)
  case (1 node l st)
  from "1.prems"(2) obtain c where c: "lstate st node = Some c" and c1: "c \<noteq> 1"
    by (auto split: option.splits if_splits)
  show ?case
  proof (cases "c = 0")
    case True
    let ?st1 = "st\<lparr>lstate := (lstate st)(node \<mapsto> 1)\<rparr>"
    from "1.prems"(2) c True obtain es st2 where
      es: "Vertex_edges (heap st) node = Inr es"
      and r: "layered_dfs_edges node l es ?st1 = Inr st2"
      and s: "st' = place node l (st2\<lparr>lstate := (lstate st2)(node \<mapsto> 2)\<rparr>)"
      by (auto split: sum.splits)
    from es have "node < length (heap st)" and "es = vedges (heap st ! node)"
      by (auto simp: Vertex_edges_def split: if_splits)
    with "1.prems"(1) have es_def: "es = vedges (vs ! node)"
      by (simp add: layered_inv_def)
    from c True have w: "lstate st node = Some 0" by simp
    have inv1: "layered_inv vs ?st1" using "1.prems"(1) w by (rule layered_inv_enter)
    from "1.IH"[OF c c1 True es inv1 r]
    have inv2: "layered_inv vs st2" and ext: "lextends ?st1 st2"
      and tg: "\<forall>e\<in>set es. source e = node \<longrightarrow> target e \<in> lvisited st2" by auto
    note el = lextends_enter_leave[OF w ext]
    from tg have sc: "succs vs node \<subseteq> lvisited st2"
      by (auto simp: succs_def es_def)
    note lv = layered_inv_leave[OF inv2 el(2) sc, of l]
    have "node \<in> lvisited st'" unfolding s by (simp add: lvisited_def place_def Let_def)
    with lv el(1)[of l] show ?thesis unfolding s by simp
  next
    case False
    with "1.prems"(2) c c1 have eq: "st' = st" by simp
    from "1.prems"(1) c have "c \<le> 2" by (auto simp: layered_inv_def)
    with False c1 have "c = 2" by simp
    with c have "node \<in> lvisited st" by (simp add: lvisited_def)
    with "1.prems"(1) c False show ?thesis by (simp add: eq lextends_refl)
  qed
next
  case (2 node l st)
  then show ?case by (simp add: lextends_refl)
next
  case (3 node l e es st)
  show ?case
  proof (cases "source e = node")
    case True
    with "3.prems"(2) obtain st1 where
      a: "layered_dfs (target e) (l + 1) st = Inr st1"
      and b: "layered_dfs_edges node l es st1 = Inr st'"
      by (auto split: sum.splits)
    from "3.IH"(1)[OF True "3.prems"(1) a]
    have inv1: "layered_inv vs st1" and e1: "lextends st st1"
      and t1: "target e \<in> lvisited st1" by auto
    from "3.IH"(2)[OF True a inv1 b]
    have inv2: "layered_inv vs st'" and e2: "lextends st1 st'"
      and t2: "\<forall>e\<in>set es. source e = node \<longrightarrow> target e \<in> lvisited st'" by auto
    from e2 t1 have "target e \<in> lvisited st'" by (auto simp: lextends_def)
    with inv2 t2 lextends_trans[OF e1 e2] show ?thesis by simp
  next
    case False
    with "3.prems"(2) have b: "layered_dfs_edges node l es st = Inr st'" by simp
    from "3.IH"(3)[OF False "3.prems"(1) b] False show ?thesis by simp
  qed
qed

lemma reachable_visited:
  assumes inv: "layered_inv vs st" and sc: "succs vs x \<subseteq> lvisited st"
    and r: "(x, t) \<in> (out_rel vs)\<^sup>+"
  shows "t \<in> lvisited st"
  using r
proof (induction rule: trancl_induct)
  case (base y)
  with sc show ?case by (auto simp: out_rel_def)
next
  case (step y z)
  with inv show ?case by (auto simp: out_rel_def layered_inv_def)
qed

text \<open>
  The moment a vertex is placed: the call that visits an unvisited vertex first runs the
  loop over its edges, and in the state that loop returns every vertex reachable from it
  along outgoing edges already stands in a layer; only then is the vertex itself placed,
  in the layer numbered by the call's \<open>current_layer\<close>.
\<close>

lemma layered_dfs_places_after_reachable:
  assumes inv: "layered_inv vs st" and w: "lstate st node = Some 0"
    and run: "layered_dfs node l st = Inr st'"
  shows "\<exists>st2. layered_dfs_edges node l (vedges (vs ! node))
                 (st\<lparr>lstate := (lstate st)(node \<mapsto> 1)\<rparr>) = Inr st2 \<and>
               st' = place node l (st2\<lparr>lstate := (lstate st2)(node \<mapsto> 2)\<rparr>) \<and>
               node \<notin> set (concat (layers st2)) \<and>
               (\<forall>t. (node, t) \<in> (out_rel vs)\<^sup>+ \<longrightarrow> t \<in> set (concat (layers st2))) \<and>
               layer (heap st' ! node) = Some l \<and> node \<in> set (layers st' ! l)"
proof -
  let ?st1 = "st\<lparr>lstate := (lstate st)(node \<mapsto> 1)\<rparr>"
  from run w obtain es st2 where
    es: "Vertex_edges (heap st) node = Inr es"
    and r: "layered_dfs_edges node l es ?st1 = Inr st2"
    and s: "st' = place node l (st2\<lparr>lstate := (lstate st2)(node \<mapsto> 2)\<rparr>)"
    by (auto split: sum.splits)
  from es have "node < length (heap st)" and "es = vedges (heap st ! node)"
    by (auto simp: Vertex_edges_def split: if_splits)
  with inv have es_def: "es = vedges (vs ! node)" by (simp add: layered_inv_def)
  have inv1: "layered_inv vs ?st1" using inv w by (rule layered_inv_enter)
  from layered_partial(2)[OF inv1 r]
  have inv2: "layered_inv vs st2" and ext: "lextends ?st1 st2"
    and tg: "\<forall>e\<in>set es. source e = node \<longrightarrow> target e \<in> lvisited st2" by auto
  from tg have sc: "succs vs node \<subseteq> lvisited st2" by (auto simp: succs_def es_def)
  from inv2 have vis: "set (concat (layers st2)) = lvisited st2"
    unfolding layered_inv_def by blast
  from lextends_enter_leave(2)[OF w ext] have a: "node \<notin> set (concat (layers st2))"
    unfolding vis by (simp add: lvisited_def)
  have b: "\<forall>t. (node, t) \<in> (out_rel vs)\<^sup>+ \<longrightarrow> t \<in> set (concat (layers st2))"
    unfolding vis using reachable_visited[OF inv2 sc] by blast
  from layered_partial(1)[OF inv run] w
  have c: "layer (heap st' ! node) = Some l" and d: "node \<in> set (layers st' ! l)" by simp_all
  from r have r': "layered_dfs_edges node l (vedges (vs ! node)) ?st1 = Inr st2"
    by (simp only: es_def)
  show ?thesis
    by (intro exI[of _ st2] conjI) (fact r' s a b c d)+
qed

lemma layered_total:
  "layered_inv vs st \<Longrightarrow> closed vs \<Longrightarrow> acyclic (out_rel vs) \<Longrightarrow> x < length vs \<Longrightarrow>
     \<forall>g\<in>lvisiting st. (g, x) \<in> (out_rel vs)\<^sup>+ \<Longrightarrow> \<exists>st'. layered_dfs x l st = Inr st'"
  "layered_inv vs st \<Longrightarrow> closed vs \<Longrightarrow> acyclic (out_rel vs) \<Longrightarrow> node < length vs \<Longrightarrow>
     set es \<subseteq> set (vedges (vs ! node)) \<Longrightarrow>
     \<forall>g\<in>lvisiting st. (g, node) \<in> (out_rel vs)\<^sup>* \<Longrightarrow>
     \<exists>st'. layered_dfs_edges node l es st = Inr st'"
proof (induction x l st and node l es st rule: layered_dfs_layered_dfs_edges.induct)
  case (1 node l st)
  from "1.prems"(1,4) have "node \<in> dom (lstate st)" by (simp add: layered_inv_def)
  then obtain c where c: "lstate st node = Some c" by auto
  have c1: "c \<noteq> 1"
  proof
    assume "c = 1"
    with c have "node \<in> lvisiting st" by (simp add: lvisiting_def)
    with "1.prems"(5) have "(node, node) \<in> (out_rel vs)\<^sup>+" by simp
    with "1.prems"(3) show False by (simp add: acyclic_def)
  qed
  show ?case
  proof (cases "c = 0")
    case True
    let ?st1 = "st\<lparr>lstate := (lstate st)(node \<mapsto> 1)\<rparr>"
    from c True have w: "lstate st node = Some 0" by simp
    from "1.prems"(1,4) have "node < length (heap st)"
      and "vedges (heap st ! node) = vedges (vs ! node)" by (simp_all add: layered_inv_def)
    then have es: "Vertex_edges (heap st) node = Inr (vedges (vs ! node))"
      by (simp add: Vertex_edges_def)
    have inv1: "layered_inv vs ?st1" using "1.prems"(1) w by (rule layered_inv_enter)
    have "lvisiting ?st1 = insert node (lvisiting st)" by (auto simp: lvisiting_def)
    with "1.prems"(5) have g1: "\<forall>g\<in>lvisiting ?st1. (g, node) \<in> (out_rel vs)\<^sup>*" by auto
    from "1.IH"[OF c c1 True es inv1 "1.prems"(2,3,4) subset_refl g1]
    obtain st2 where "layered_dfs_edges node l (vedges (vs ! node)) ?st1 = Inr st2" by auto
    with c True es show ?thesis by simp
  next
    case False
    with c c1 show ?thesis by simp
  qed
next
  case (2 node l st)
  then show ?case by simp
next
  case (3 node l e es st)
  from "3.prems"(5) have sub: "set es \<subseteq> set (vedges (vs ! node))"
    and mem: "e \<in> set (vedges (vs ! node))" by auto
  show ?case
  proof (cases "source e = node")
    case True
    with mem have s: "target e \<in> succs vs node" by (auto simp: succs_def)
    with "3.prems"(2,4) have lt: "target e < length vs" by (auto simp: closed_def)
    from s "3.prems"(4) have edge: "(node, target e) \<in> out_rel vs" by (simp add: out_rel_def)
    with "3.prems"(6) have g: "\<forall>g\<in>lvisiting st. (g, target e) \<in> (out_rel vs)\<^sup>+" by auto
    from "3.IH"(1)[OF True "3.prems"(1,2,3) lt g]
    obtain st1 where a: "layered_dfs (target e) (l + 1) st = Inr st1" by auto
    from layered_partial(1)[OF "3.prems"(1) a]
    have inv1: "layered_inv vs st1" and "lvisiting st1 = lvisiting st"
      by (auto simp: lextends_def)
    with "3.prems"(6) have g1: "\<forall>g\<in>lvisiting st1. (g, node) \<in> (out_rel vs)\<^sup>*" by simp
    from "3.IH"(2)[OF True a inv1 "3.prems"(2,3,4) sub g1] True a show ?thesis by simp
  next
    case False
    from "3.IH"(3)[OF False "3.prems"(1,2,3,4) sub "3.prems"(6)] False show ?thesis by simp
  qed
qed

lemma layered_visit_all_partial:
  "layered_inv vs st \<Longrightarrow> layered_visit_all ns st = Inr st' \<Longrightarrow>
     layered_inv vs st' \<and> lextends st st' \<and> set ns \<subseteq> lvisiting st' \<union> lvisited st'"
proof (induction ns arbitrary: st)
  case Nil
  then show ?case by (simp add: lextends_refl)
next
  case (Cons node rest)
  from Cons.prems(2) obtain c where c: "lstate st node = Some c"
    by (auto split: option.splits)
  show ?case
  proof (cases "c = 0")
    case True
    with Cons.prems(2) c obtain st1 where a: "layered_dfs node 0 st = Inr st1"
      and b: "layered_visit_all rest st1 = Inr st'" by (auto split: sum.splits)
    from layered_partial(1)[OF Cons.prems(1) a]
    have inv1: "layered_inv vs st1" and e1: "lextends st st1" and n1: "node \<in> lvisited st1"
      by auto
    from Cons.IH[OF inv1 b]
    have inv2: "layered_inv vs st'" and e2: "lextends st1 st'"
      and r: "set rest \<subseteq> lvisiting st' \<union> lvisited st'" by auto
    from e2 n1 have "node \<in> lvisited st'" by (auto simp: lextends_def)
    with inv2 r lextends_trans[OF e1 e2] show ?thesis by simp
  next
    case False
    with Cons.prems(2) c have b: "layered_visit_all rest st = Inr st'" by simp
    from Cons.IH[OF Cons.prems(1) b]
    have inv2: "layered_inv vs st'" and e2: "lextends st st'"
      and r: "set rest \<subseteq> lvisiting st' \<union> lvisited st'" by auto
    from Cons.prems(1) c have "c \<le> 2" by (auto simp: layered_inv_def)
    with False c have "node \<in> lvisiting st \<union> lvisited st"
      by (cases "c = 1") (auto simp: lvisiting_def lvisited_def)
    with e2 have "node \<in> lvisiting st' \<union> lvisited st'" by (auto simp: lextends_def)
    with inv2 e2 r show ?thesis by simp
  qed
qed

lemma layered_visit_all_total:
  "layered_inv vs st \<Longrightarrow> closed vs \<Longrightarrow> acyclic (out_rel vs) \<Longrightarrow> set ns \<subseteq> {..<length vs} \<Longrightarrow>
     lvisiting st = {} \<Longrightarrow> \<exists>st'. layered_visit_all ns st = Inr st'"
proof (induction ns arbitrary: st)
  case Nil
  then show ?case by simp
next
  case (Cons node rest)
  from Cons.prems(4) have lt: "node < length vs" and sub: "set rest \<subseteq> {..<length vs}" by auto
  with Cons.prems(1) have "node \<in> dom (lstate st)" by (simp add: layered_inv_def)
  then obtain c where c: "lstate st node = Some c" by auto
  show ?case
  proof (cases "c = 0")
    case True
    from Cons.prems(5) have "\<forall>g\<in>lvisiting st. (g, node) \<in> (out_rel vs)\<^sup>+" by simp
    from layered_total(1)[OF Cons.prems(1,2,3) lt this]
    obtain st1 where a: "layered_dfs node 0 st = Inr st1" by auto
    from layered_partial(1)[OF Cons.prems(1) a] Cons.prems(5)
    have "layered_inv vs st1" and "lvisiting st1 = {}" by (auto simp: lextends_def)
    from Cons.IH[OF this(1) Cons.prems(2,3) sub this(2)] c True a show ?thesis by simp
  next
    case False
    from Cons.IH[OF Cons.prems(1,2,3) sub Cons.prems(5)] c False show ?thesis by simp
  qed
qed

definition layered_initial_state :: "ref list \<Rightarrow> vertex list \<Rightarrow> layered_state" where
  "layered_initial_state nodes vs =
     \<lparr>lstate = map_of (map (\<lambda>node. (node, 0)) nodes), layers = [], heap = vs\<rparr>"

lemma layered_initial_state_lookup:
  "lstate (layered_initial_state nodes vs) i = (if i \<in> set nodes then Some 0 else None)"
  by (induction nodes) (auto simp: layered_initial_state_def)

lemma layered_initial_state_inv: "layered_inv vs (layered_initial_state [0..<length vs] vs)"
  unfolding layered_inv_def
  by (auto simp: layered_initial_state_lookup lvisited_def dom_def)
     (simp_all add: layered_initial_state_def)

lemma layered_initial_state_visiting: "lvisiting (layered_initial_state nodes vs) = {}"
  by (simp add: lvisiting_def layered_initial_state_lookup)

text \<open>
  On every constructed graph with an acyclic edge relation the traversal over all
  vertices returns; every vertex then stands in exactly one layer, and the number of that
  layer is the vertex's \<open>layer\<close> attribute.
\<close>

lemma layered_traversal_of_vertices:
  assumes g: "Graph_init env nodes es = Inr g" and ac: "acyclic (edge_rel g)"
  shows "\<exists>st. layered_visit_all [0..<length (vertices g)]
                (layered_initial_state [0..<length (vertices g)] (vertices g)) = Inr st \<and>
              length (heap st) = length (vertices g) \<and>
              distinct (concat (layers st)) \<and>
              set (concat (layers st)) = {..<length (vertices g)} \<and>
              (\<forall>l<length (layers st). \<forall>i\<in>set (layers st ! l). layer (heap st ! i) = Some l)"
proof -
  let ?vs = "vertices g"
  let ?init = "layered_initial_state [0..<length ?vs] ?vs"
  have sub: "set [0..<length ?vs] \<subseteq> {..<length ?vs}" by auto
  from ac have ac': "acyclic (out_rel ?vs)" by (simp add: constructed_out_rel[OF g])
  from layered_visit_all_total[OF layered_initial_state_inv constructed_closed[OF g] ac' sub
      layered_initial_state_visiting]
  obtain st where run: "layered_visit_all [0..<length ?vs] ?init = Inr st" by auto
  from layered_visit_all_partial[OF layered_initial_state_inv run]
  have inv: "layered_inv ?vs st" and ext: "lextends ?init st"
    and all: "set [0..<length ?vs] \<subseteq> lvisiting st \<union> lvisited st" by auto
  from ext have "lvisiting st = {}" by (simp add: lextends_def layered_initial_state_visiting)
  with all have "{..<length ?vs} \<subseteq> lvisited st" by auto
  moreover from inv have "lvisited st \<subseteq> {..<length ?vs}"
    by (auto simp: layered_inv_def lvisited_def)
  ultimately have v: "lvisited st = {..<length ?vs}" by auto
  from inv have "length (heap st) = length ?vs" and "distinct (concat (layers st))"
    and "set (concat (layers st)) = lvisited st"
    and "\<forall>l<length (layers st). \<forall>i\<in>set (layers st ! l). layer (heap st ! i) = Some l"
    unfolding layered_inv_def by blast+
  with run v show ?thesis by auto
qed

section \<open>The attribute read by the layered sort\<close>

definition cyclic_edges :: "raw_edge list" where
  "cyclic_edges = [mk_edge ''A'' ''B'', mk_edge ''B'' ''C'', mk_edge ''C'' ''A'']"

text \<open>
  C2, at the flow \<open>A \<rightarrow> B \<rightarrow> C \<rightarrow> A\<close>. The graph is constructed and its edge relation has a
  cycle; \<open>topological_sort\<close> raises the cycle error; \<open>layered_topological_sort\<close> raises
  \<open>AttributeError\<close> for \<open>nodes\<close>, not the cycle error.
\<close>

theorem layered_sort_of_cycle_raises_attribute_error:
  "\<exists>g. Graph_init example_env abc_nodes cyclic_edges = Inr g \<and>
       \<not> acyclic (edge_rel g) \<and>
       topological_sort g =
         Inl (ValueError ''Graph contains a cycle, cannot perform topological sort'') \<and>
       layered_topological_sort g = Inl (AttributeError ''nodes'')"
proof -
  obtain g where g: "Graph_init example_env abc_nodes cyclic_edges = Inr g"
    and ts: "topological_sort g =
         Inl (ValueError ''Graph contains a cycle, cannot perform topological sort'')"
    and ls: "layered_topological_sort g = Inl (AttributeError ''nodes'')"
    by (simp add: eval_defs sort_defs cyclic_edges_def)
  from ts have "\<not> acyclic (edge_rel g)"
    using topological_sort_returns_iff_acyclic(2)[OF g] by (simp add: cycle_error_def)
  with g ts ls show ?thesis by (intro exI[of _ g] conjI)
qed

text \<open>
  C8, at the flow \<open>A \<rightarrow> B \<rightarrow> C\<close>. The graph is constructed and acyclic, and
  \<open>layered_topological_sort\<close> raises \<open>AttributeError\<close> for \<open>nodes\<close>: it returns no layers
  and assigns no \<open>layer\<close>. Run on the attribute \<open>vertices\<close> instead, the same traversal
  completes with the layers \<open>[[A], [B], [C]]\<close> and the layer numbers 0, 1, 2, as
  \<open>layered_traversal_of_vertices\<close> and \<open>layered_dfs_places_after_reachable\<close> show it
  does on every acyclic constructed graph.
\<close>

theorem layered_sort_of_acyclic_graph_raises_attribute_error:
  "\<exists>g. Graph_init example_env abc_nodes abc_edges = Inr g \<and>
       acyclic (edge_rel g) \<and>
       layered_topological_sort g = Inl (AttributeError ''nodes'') \<and>
       map layer (vertices g) = [None, None, None] \<and>
       (\<exists>st. layered_visit_all [0, 1, 2]
               \<lparr>lstate = map_of (map (\<lambda>node. (node, 0)) [0, 1, 2]), layers = [],
                heap = vertices g\<rparr> = Inr st \<and>
             layers st = [[0], [1], [2]] \<and>
             map layer (heap st) = [Some 0, Some 1, Some 2])"
proof -
  obtain g where g: "Graph_init example_env abc_nodes abc_edges = Inr g"
    and ls: "layered_topological_sort g = Inl (AttributeError ''nodes'')"
    and l0: "map layer (vertices g) = [None, None, None]"
    and run: "\<exists>st. layered_visit_all [0, 1, 2]
               \<lparr>lstate = map_of (map (\<lambda>node. (node, 0)) [0, 1, 2]), layers = [],
                heap = vertices g\<rparr> = Inr st \<and>
             layers st = [[0], [1], [2]] \<and>
             map layer (heap st) = [Some 0, Some 1, Some 2]"
    by (simp add: eval_defs sort_defs place_def Let_def)
  from g have "map (\<lambda>e. (source e, target e)) (edges g) = [(0, 1), (1, 2)]"
    by (auto simp: eval_defs)
  then have er: "edge_rel g = {(0, 1), (1, 2)}"
    by (simp add: edge_rel_code)
  have ac: "acyclic (edge_rel g)"
    unfolding er by (rule acyclicI_order[where f = "\<lambda>i. 2 - i"]) auto
  with g ac ls l0 run show ?thesis by (intro exI[of _ g] conjI)
qed

section \<open>The representation determines identifiers and connections\<close>

lemma hex_digit_inj:
  assumes "d < 16" "d' < 16" "hex_digit d = hex_digit d'"
  shows "d = d'"
proof -
  have "distinct ''0123456789abcdef''" by simp
  moreover have "d < length ''0123456789abcdef''" "d' < length ''0123456789abcdef''"
    using assms(1,2) by simp_all
  moreover have "''0123456789abcdef'' ! d = ''0123456789abcdef'' ! d'"
    using assms by (simp add: hex_digit_def)
  ultimately show ?thesis by (simp only: nth_eq_iff_index_eq)
qed

lemma hex_digit_range: "hex_digit d \<in> set ''0123456789abcdef''"
  unfolding hex_digit_def by (rule nth_mem) simp

lemma hex_escape_inj:
  assumes "hex_digit (of_char c div 16) = hex_digit (of_char c' div 16)"
    and "hex_digit (of_char c mod 16) = hex_digit (of_char c' mod 16)"
  shows "c = c'"
proof -
  let ?n = "of_char c :: nat" and ?m = "of_char c' :: nat"
  have "?n < 256" "?m < 256" by (rule nat_of_char_less_256)+
  then have "?n div 16 < 16" "?m div 16 < 16" by (simp_all add: less_mult_imp_div_less)
  with assms(1) have d: "?n div 16 = ?m div 16" by (intro hex_digit_inj)
  have "?n mod 16 < 16" "?m mod 16 < 16" by simp_all
  with assms(2) have m: "?n mod 16 = ?m mod 16" by (intro hex_digit_inj)
  from d m have "?n = ?m" by (metis div_mult_mod_eq)
  then show ?thesis by simp
qed

lemma repr_char_prefix_code:
  assumes "q = CHR 0x27 \<or> q = CHR 0x22"
    and "repr_char q c @ x = repr_char q c' @ x'"
  shows "c = c' \<and> x = x'"
  using assms
  by (auto simp: repr_char_def hex_escape_def split: if_splits dest: hex_escape_inj)

lemma repr_char_not_quote:
  assumes "q = CHR 0x27 \<or> q = CHR 0x22"
  shows "repr_char q c @ x \<noteq> q # y"
  using assms by (auto simp: repr_char_def hex_escape_def split: if_splits)


lemma repr_body_delimited:
  assumes q: "q = CHR 0x27 \<or> q = CHR 0x22"
  shows "concat (map (repr_char q) s) @ q # r = concat (map (repr_char q) s') @ q # r' \<Longrightarrow>
         s = s' \<and> r = r'"
proof (induction s arbitrary: s')
  case Nil
  show ?case
  proof (cases s')
    case Nil
    with Nil.prems show ?thesis by simp
  next
    case (Cons c' t')
    with Nil.prems have "repr_char q c' @ (concat (map (repr_char q) t') @ q # r') = q # r"
      by simp
    with repr_char_not_quote[OF q] show ?thesis by blast
  qed
next
  case (Cons c t)
  show ?case
  proof (cases s')
    case Nil
    with Cons.prems have "repr_char q c @ (concat (map (repr_char q) t) @ q # r) = q # r'"
      by simp
    with repr_char_not_quote[OF q] show ?thesis by blast
  next
    case (Cons c' t')
    with Cons.prems
    have "repr_char q c @ (concat (map (repr_char q) t) @ q # r) =
          repr_char q c' @ (concat (map (repr_char q) t') @ q # r')" by simp
    from repr_char_prefix_code[OF q this]
    have "c = c'" and "concat (map (repr_char q) t) @ q # r = concat (map (repr_char q) t') @ q # r'"
      by simp_all
    with Cons.IH[of t'] Cons show ?thesis by simp
  qed
qed

lemma repr_quote_cases: "repr_quote s = CHR 0x27 \<or> repr_quote s = CHR 0x22"
  by (simp add: repr_quote_def)

lemma str_repr_Cons:
  "str_repr s = repr_quote s # concat (map (repr_char (repr_quote s)) s) @ [repr_quote s]"
  by (simp add: str_repr_def Let_def)

text \<open>The representation of a string ends where it ends: what follows it is no part of it.\<close>

lemma str_repr_delimited:
  assumes "str_repr s @ r = str_repr s' @ r'"
  shows "s = s' \<and> r = r'"
proof -
  let ?q = "repr_quote s"
  from assms have q: "repr_quote s' = ?q"
    by (simp add: str_repr_Cons)
  from assms have "concat (map (repr_char ?q) s) @ ?q # r = concat (map (repr_char ?q) s') @ ?q # r'"
    by (simp add: str_repr_Cons q)
  with repr_body_delimited[OF repr_quote_cases[of s]] show ?thesis by blast
qed

lemma join_Cons: "join sep (x # xs) = x @ (if xs = [] then [] else sep @ join sep xs)"
  by (cases xs) simp_all

lemma str_repr_not_bracket: "str_repr s @ x \<noteq> CHR '']'' # y"
  using repr_quote_cases[of s] by (auto simp: str_repr_Cons)

lemma reprs_delimited:
  "join '', '' (map str_repr xs) @ CHR '']'' # r = join '', '' (map str_repr ys) @ CHR '']'' # r' \<Longrightarrow>
   xs = ys \<and> r = r'"
proof (induction xs arbitrary: ys)
  case Nil
  show ?case
  proof (cases ys)
    case Nil
    with Nil.prems show ?thesis by simp
  next
    case (Cons y ys')
    with Nil.prems have "str_repr y @ ((if ys' = [] then [] else '', '' @ join '', '' (map str_repr ys'))
        @ CHR '']'' # r') = CHR '']'' # r"
      by (simp add: join_Cons)
    with str_repr_not_bracket show ?thesis by blast
  qed
next
  case (Cons x xs')
  show ?case
  proof (cases ys)
    case Nil
    with Cons.prems have "str_repr x @ ((if xs' = [] then [] else '', '' @ join '', '' (map str_repr xs'))
        @ CHR '']'' # r) = CHR '']'' # r'"
      by (simp add: join_Cons)
    with str_repr_not_bracket show ?thesis by blast
  next
    case (Cons y ys')
    let ?T = "\<lambda>zs. (if zs = [] then [] else '', '' @ join '', '' (map str_repr zs))"
    from Cons Cons.prems
    have "str_repr x @ (?T xs' @ CHR '']'' # r) = str_repr y @ (?T ys' @ CHR '']'' # r')"
      by (simp add: join_Cons)
    from str_repr_delimited[OF this]
    have xy: "x = y" and rest: "?T xs' @ CHR '']'' # r = ?T ys' @ CHR '']'' # r'" by simp_all
    have "xs' = ys' \<and> r = r'"
    proof (cases "xs' = []")
      case True
      with rest show ?thesis by (cases "ys' = []") auto
    next
      case False
      with rest have ne: "ys' \<noteq> []" by (cases "ys' = []") auto
      with False rest
      have "join '', '' (map str_repr xs') @ CHR '']'' # r =
            join '', '' (map str_repr ys') @ CHR '']'' # r'" by simp
      then show ?thesis by (rule Cons.IH)
    qed
    with xy Cons show ?thesis by simp
  qed
qed

lemma list_repr_delimited:
  assumes "list_repr xs @ r = list_repr ys @ r'"
  shows "xs = ys \<and> r = r'"
  using assms reprs_delimited[of xs r ys r'] by (simp add: list_repr_def)

lemma list_repr_inj: "list_repr xs = list_repr ys \<longleftrightarrow> xs = ys"
  using list_repr_delimited[of xs "[]" ys "[]"] by auto

text \<open>A part that holds no separator ends at the first separator after it.\<close>

lemma split_at_separator:
  assumes "c \<notin> set (a :: string)" "c \<notin> set b" "x = [] \<or> hd x = c" "y = [] \<or> hd y = c"
    and "a @ x = b @ y"
  shows "a = b \<and> x = y"
proof -
  have t: "takeWhile (\<lambda>z. z \<noteq> c) (u @ v) = u" if "c \<notin> set u" "v = [] \<or> hd v = c" for u v :: "char list"
    using that by (induction u) (cases v; auto)+
  from t[OF assms(1,3)] t[OF assms(2,4)] assms(5) have "a = b" by simp
  with assms(5) show ?thesis by simp
qed

lemma lines_of_text:
  assumes "\<forall>l\<in>set ls. CHR 0x0A \<notin> set l \<and> l \<noteq> []"
    and "\<forall>l\<in>set ls'. CHR 0x0A \<notin> set l \<and> l \<noteq> []"
    and "join [CHR 0x0A] ls = join [CHR 0x0A] ls'"
  shows "ls = ls'"
  using assms
proof (induction ls arbitrary: ls')
  case Nil
  then show ?case by (cases ls') (auto simp: join_Cons)
next
  case (Cons l t)
  show ?case
  proof (cases ls')
    case Nil
    with Cons.prems show ?thesis by (auto simp: join_Cons)
  next
    case (Cons l' t')
    let ?T = "\<lambda>zs. (if zs = [] then [] else [CHR 0x0A] @ join [CHR 0x0A] zs)"
    from Cons Cons.prems(3) have eq: "l @ ?T t = l' @ ?T t'" by (simp add: join_Cons)
    from Cons.prems(1,2) Cons have nl: "CHR 0x0A \<notin> set l" "CHR 0x0A \<notin> set l'" by auto
    have "?T t = [] \<or> hd (?T t) = CHR 0x0A" "?T t' = [] \<or> hd (?T t') = CHR 0x0A" by auto
    from split_at_separator[OF nl this eq] have ll: "l = l'" and tt: "?T t = ?T t'" by simp_all
    have "t = t'"
    proof (cases "t = []")
      case True
      with tt show ?thesis by (cases "t' = []") auto
    next
      case False
      with tt have "t' \<noteq> []" by (cases "t' = []") auto
      with False tt have "join [CHR 0x0A] t = join [CHR 0x0A] t'" by simp
      with Cons.prems(1,2) Cons show ?thesis by (intro Cons.IH) auto
    qed
    with ll Cons show ?thesis by simp
  qed
qed

section \<open>Equality of graphs\<close>

text \<open>An identifier without a space and without a newline.\<close>

definition plain_id :: "string \<Rightarrow> bool" where
  "plain_id s \<longleftrightarrow> CHR '' '' \<notin> set s \<and> CHR 0x0A \<notin> set s"

definition connections :: "graph \<Rightarrow> (ref \<times> ref) list" where
  "connections g = map (\<lambda>e. (source e, target e)) (edges g)"

lemma Graph_repr_eq_iff:
  "Graph_repr g = Graph_repr g' \<longleftrightarrow>
     map vid (vertices g) = map vid (vertices g') \<and>
     join [CHR 0x0A] (map (edge_line (vertices g)) (edges g)) =
     join [CHR 0x0A] (map (edge_line (vertices g')) (edges g'))"
proof
  assume "Graph_repr g = Graph_repr g'"
  then have "list_repr (map vid (vertices g)) @
               (CHR 0x0A # ''Connections:'' @ CHR 0x0A #
                  join [CHR 0x0A] (map (edge_line (vertices g)) (edges g))) =
             list_repr (map vid (vertices g')) @
               (CHR 0x0A # ''Connections:'' @ CHR 0x0A #
                  join [CHR 0x0A] (map (edge_line (vertices g')) (edges g')))"
    by (simp add: Graph_repr_def)
  from list_repr_delimited[OF this]
  show "map vid (vertices g) = map vid (vertices g') \<and>
     join [CHR 0x0A] (map (edge_line (vertices g)) (edges g)) =
     join [CHR 0x0A] (map (edge_line (vertices g')) (edges g'))" by simp
next
  assume "map vid (vertices g) = map vid (vertices g') \<and>
     join [CHR 0x0A] (map (edge_line (vertices g)) (edges g)) =
     join [CHR 0x0A] (map (edge_line (vertices g')) (edges g'))"
  then show "Graph_repr g = Graph_repr g'" by (simp add: Graph_repr_def)
qed

lemma edge_line_plain:
  assumes "plain_id (vid (vs ! source e))" "plain_id (vid (vs ! target e))"
  shows "CHR 0x0A \<notin> set (edge_line vs e)" and "edge_line vs e \<noteq> []"
  using assms by (simp_all add: edge_line_def plain_id_def)

lemma edge_line_split:
  assumes "plain_id (vid (vs ! source e))" "plain_id (vid (vs' ! source e'))"
    and "edge_line vs e = edge_line vs' e'"
  shows "vid (vs ! source e) = vid (vs' ! source e')"
    and "vid (vs ! target e) = vid (vs' ! target e')"
proof -
  let ?x = "'' --> '' @ vid (vs ! target e)" and ?y = "'' --> '' @ vid (vs' ! target e')"
  from assms(3) have eq: "vid (vs ! source e) @ ?x = vid (vs' ! source e') @ ?y"
    by (simp add: edge_line_def)
  have "CHR '' '' \<notin> set (vid (vs ! source e))" "CHR '' '' \<notin> set (vid (vs' ! source e'))"
    using assms(1,2) by (simp_all add: plain_id_def)
  moreover have "?x = [] \<or> hd ?x = CHR '' ''" "?y = [] \<or> hd ?y = CHR '' ''" by simp_all
  ultimately have "vid (vs ! source e) = vid (vs' ! source e') \<and> ?x = ?y"
    using eq by (rule split_at_separator)
  then show "vid (vs ! source e) = vid (vs' ! source e')"
    and "vid (vs ! target e) = vid (vs' ! target e')" by simp_all
qed

lemma constructed_address_of_id:
  assumes g: "Graph_init env nodes es = Inr g"
    and i: "i < length (vertices g)" and j: "j < length (vertices g)"
    and eq: "vid (vertices g ! i) = vid (vertices g ! j)"
  shows "i = j"
proof -
  from constructed_distinct_ids[OF g] have "distinct (map vid (vertices g))" .
  moreover from i j eq have "map vid (vertices g) ! i = map vid (vertices g) ! j" by simp
  ultimately show ?thesis using i j nth_eq_iff_index_eq[of "map vid (vertices g)" i j] by simp
qed

lemma constructed_structural_eq:
  assumes g: "Graph_init env nodes es = Inr g" and g': "Graph_init env' nodes' es' = Inr g'"
    and plain: "\<forall>v\<in>set (vertices g) \<union> set (vertices g'). plain_id (vid v)"
  shows "Graph_repr g = Graph_repr g' \<longleftrightarrow>
           map vid (vertices g) = map vid (vertices g') \<and> connections g = connections g'"
proof -
  let ?vs = "vertices g" and ?vs' = "vertices g'"
  have pl: "plain_id (vid (?vs ! source e))" "plain_id (vid (?vs ! target e))"
    if "e \<in> set (edges g)" for e
    using constructed_valid[OF g that] plain by simp_all
  have pl': "plain_id (vid (?vs' ! source e))" "plain_id (vid (?vs' ! target e))"
    if "e \<in> set (edges g')" for e
    using constructed_valid[OF g' that] plain by simp_all
  show ?thesis
  proof
    assume "Graph_repr g = Graph_repr g'"
    then have ids: "map vid ?vs = map vid ?vs'"
      and joined: "join [CHR 0x0A] (map (edge_line ?vs) (edges g)) =
                 join [CHR 0x0A] (map (edge_line ?vs') (edges g'))"
      by (simp_all add: Graph_repr_eq_iff)
    from ids have len: "length ?vs = length ?vs'" by (rule map_eq_imp_length_eq)
    have "map (edge_line ?vs) (edges g) = map (edge_line ?vs') (edges g')"
    proof (rule lines_of_text[OF _ _ joined])
      show "\<forall>l\<in>set (map (edge_line ?vs) (edges g)). CHR 0x0A \<notin> set l \<and> l \<noteq> []"
        using pl by (auto simp: edge_line_plain)
      show "\<forall>l\<in>set (map (edge_line ?vs') (edges g')). CHR 0x0A \<notin> set l \<and> l \<noteq> []"
        using pl' by (auto simp: edge_line_plain)
    qed
    then have elen: "length (edges g) = length (edges g')"
      and lines: "\<And>k. k < length (edges g) \<Longrightarrow>
                   edge_line ?vs (edges g ! k) = edge_line ?vs' (edges g' ! k)"
      by (auto dest: map_eq_imp_length_eq simp: list_eq_iff_nth_eq)
    have "connections g = connections g'"
      unfolding connections_def
    proof (rule nth_equalityI)
      show "length (map (\<lambda>e. (source e, target e)) (edges g)) =
            length (map (\<lambda>e. (source e, target e)) (edges g'))" by (simp add: elen)
    next
      fix k assume "k < length (map (\<lambda>e. (source e, target e)) (edges g))"
      then have k: "k < length (edges g)" and k': "k < length (edges g')" by (simp_all add: elen)
      let ?e = "edges g ! k" and ?e' = "edges g' ! k"
      from k k' have m: "?e \<in> set (edges g)" and m': "?e' \<in> set (edges g')" by simp_all
      from edge_line_split[OF pl(1)[OF m] pl'(1)[OF m'] lines[OF k]]
      have s: "vid (?vs ! source ?e) = vid (?vs' ! source ?e')"
        and t: "vid (?vs ! target ?e) = vid (?vs' ! target ?e')" by simp_all
      note v = constructed_valid[OF g m] and v' = constructed_valid[OF g' m']
      have same: "vid (?vs' ! i) = vid (?vs ! i)" if "i < length ?vs" for i
      proof -
      from ids have "map vid ?vs' ! i = map vid ?vs ! i" by simp
      with that len show ?thesis by simp
    qed
      from v'(1) have "vid (?vs' ! source ?e') = vid (?vs ! source ?e')" by (simp add: same len)
      with s v v' have "source ?e = source ?e'"
        by (intro constructed_address_of_id[OF g]) (simp_all add: len)
      moreover from v'(2) have "vid (?vs' ! target ?e') = vid (?vs ! target ?e')"
        by (simp add: same len)
      with t v v' have "target ?e = target ?e'"
        by (intro constructed_address_of_id[OF g]) (simp_all add: len)
      ultimately show "map (\<lambda>e. (source e, target e)) (edges g) ! k =
                       map (\<lambda>e. (source e, target e)) (edges g') ! k"
        using k k' by simp
    qed
    with ids show "map vid ?vs = map vid ?vs' \<and> connections g = connections g'" by simp
  next
    assume a: "map vid ?vs = map vid ?vs' \<and> connections g = connections g'"
    then have ids: "map vid ?vs = map vid ?vs'" and con: "connections g = connections g'"
      by simp_all
    from ids have len: "length ?vs = length ?vs'" by (rule map_eq_imp_length_eq)
    from con have elen: "length (edges g) = length (edges g')"
      unfolding connections_def by (rule map_eq_imp_length_eq)
    have same: "vid (?vs' ! i) = vid (?vs ! i)" if "i < length ?vs" for i
    proof -
      from ids have "map vid ?vs' ! i = map vid ?vs ! i" by simp
      with that len show ?thesis by simp
    qed
    have "map (edge_line ?vs) (edges g) = map (edge_line ?vs') (edges g')"
    proof (rule nth_equalityI)
      show "length (map (edge_line ?vs) (edges g)) = length (map (edge_line ?vs') (edges g'))"
        by (simp add: elen)
    next
      fix k assume "k < length (map (edge_line ?vs) (edges g))"
      then have k: "k < length (edges g)" and k': "k < length (edges g')" by (simp_all add: elen)
      let ?e = "edges g ! k" and ?e' = "edges g' ! k"
      from k have m: "?e \<in> set (edges g)" by simp
      from con have "map (\<lambda>e. (source e, target e)) (edges g) ! k =
                     map (\<lambda>e. (source e, target e)) (edges g') ! k"
        unfolding connections_def by simp
      with k k' have "(source ?e, target ?e) = (source ?e', target ?e')" by simp
      then have st: "source ?e' = source ?e" "target ?e' = target ?e" by simp_all
      from constructed_valid[OF g m] have "edge_line ?vs' ?e' = edge_line ?vs ?e"
        unfolding edge_line_def st by (simp add: same)
      with k k' show "map (edge_line ?vs) (edges g) ! k = map (edge_line ?vs') (edges g') ! k"
        by simp
    qed
    with ids show "Graph_repr g = Graph_repr g'" by (simp add: Graph_repr_eq_iff)
  qed
qed

text \<open>
  The condition on identifiers cannot be dropped: an identifier that holds a newline can
  spell a connection line of its own, and then two graphs with different connections have
  the same representation.
\<close>

lemma newline_in_identifier_merges_lines:
  "\<exists>g g'. Graph_init example_env
            [mk_node ''A'' ''Tool'' ''tool'', mk_node ''B\<newline>A --> B'' ''Chain'' ''chain'',
             mk_node ''B'' ''Agent'' ''agent'']
            [mk_edge ''A'' ''B\<newline>A --> B'', mk_edge ''B\<newline>A --> B'' ''B''] = Inr g \<and>
          Graph_init example_env
            [mk_node ''A'' ''Tool'' ''tool'', mk_node ''B\<newline>A --> B'' ''Chain'' ''chain'',
             mk_node ''B'' ''Agent'' ''agent'']
            [mk_edge ''A'' ''B'', mk_edge ''A'' ''B'', mk_edge ''B\<newline>A --> B'' ''B''] = Inr g' \<and>
          Graph_eq g (GraphObject g') \<and>
          connections g = [(0, 1), (1, 2)] \<and>
          connections g' = [(0, 2), (0, 2), (1, 2)]"
  by (simp add: eval_defs Graph_eq_def Graph_repr_def edge_line_def connections_def)

text \<open>
  C7. A graph equals another graph exactly when their textual representations are the
  same string, and equals no object of another class. The representation is the list of
  vertex identifiers followed by one line \<open>source id --> target id\<close> per edge, in edge
  order; it is the same for two graphs exactly when they have the same identifier list
  and the same text of connection lines. Two graphs constructed from the same node and
  edge input are equal. For constructed graphs whose identifiers hold no space and no
  newline (an identifier with a newline can spell a connection line of its own), equality
  is structural: the same identifiers in the same order and the same connections in the
  same order.
\<close>

theorem Graph_eq_is_repr_equality:
  "(Graph_eq g (GraphObject g') \<longleftrightarrow> Graph_repr g = Graph_repr g') \<and>
   \<not> Graph_eq g OtherObject \<and>
   Graph_repr g =
     ''Graph:\<newline>Nodes: '' @ list_repr (map vid (vertices g)) @ ''\<newline>Connections:\<newline>'' @
     join ''\<newline>''
       (map (\<lambda>e. vid (vertices g ! source e) @ '' --> '' @ vid (vertices g ! target e))
          (edges g)) \<and>
   (Graph_eq g (GraphObject g') \<longleftrightarrow>
      map vid (vertices g) = map vid (vertices g') \<and>
      join ''\<newline>'' (map (edge_line (vertices g)) (edges g)) =
      join ''\<newline>'' (map (edge_line (vertices g')) (edges g'))) \<and>
   (Graph_init env nodes es = Inr g \<and> Graph_init env nodes es = Inr g' \<longrightarrow>
      Graph_eq g (GraphObject g')) \<and>
   (Graph_init env nodes es = Inr g \<and> Graph_init env' nodes' es' = Inr g' \<and>
    (\<forall>v\<in>set (vertices g) \<union> set (vertices g'). plain_id (vid v)) \<longrightarrow>
      (Graph_eq g (GraphObject g') \<longleftrightarrow>
         map vid (vertices g) = map vid (vertices g') \<and> connections g = connections g'))"
proof (intro conjI impI)
  show "Graph_eq g (GraphObject g') \<longleftrightarrow> Graph_repr g = Graph_repr g'"
    by (simp add: Graph_eq_def)
  show "\<not> Graph_eq g OtherObject" by (simp add: Graph_eq_def)
  show "Graph_repr g =
     ''Graph:\<newline>Nodes: '' @ list_repr (map vid (vertices g)) @ ''\<newline>Connections:\<newline>'' @
     join ''\<newline>''
       (map (\<lambda>e. vid (vertices g ! source e) @ '' --> '' @ vid (vertices g ! target e))
          (edges g))"
    by (simp add: Graph_repr_def edge_line_def[abs_def])
  show "Graph_eq g (GraphObject g') \<longleftrightarrow>
      map vid (vertices g) = map vid (vertices g') \<and>
      join ''\<newline>'' (map (edge_line (vertices g)) (edges g)) =
      join ''\<newline>'' (map (edge_line (vertices g')) (edges g'))"
    using Graph_repr_eq_iff[of g g'] by (simp add: Graph_eq_def)
next
  assume "Graph_init env nodes es = Inr g \<and> Graph_init env nodes es = Inr g'"
  then show "Graph_eq g (GraphObject g')" by (auto simp: Graph_eq_def)
next
  assume "Graph_init env nodes es = Inr g \<and> Graph_init env' nodes' es' = Inr g' \<and>
    (\<forall>v\<in>set (vertices g) \<union> set (vertices g'). plain_id (vid v))"
  then show "Graph_eq g (GraphObject g') \<longleftrightarrow>
         map vid (vertices g) = map vid (vertices g') \<and> connections g = connections g'"
    using constructed_structural_eq[of env nodes es g env' nodes' es' g']
    by (simp add: Graph_eq_def)
qed

theorem Graph_eq_is_repr_equality_witness:
  "\<exists>g g'. Graph_init example_env abc_nodes abc_edges = Inr g \<and>
          Graph_init example_env abc_nodes [mk_edge ''B'' ''C'', mk_edge ''A'' ''B''] = Inr g' \<and>
          Graph_eq g (GraphObject g) \<and>
          \<not> Graph_eq g (GraphObject g') \<and>
          Graph_repr g =
            ''Graph:\<newline>Nodes: ['' @ [CHR 0x27] @ ''A'' @ [CHR 0x27] @ '', '' @ [CHR 0x27] @ ''B''
            @ [CHR 0x27] @ '', '' @ [CHR 0x27] @ ''C'' @ [CHR 0x27]
            @ '']\<newline>Connections:\<newline>A --> B\<newline>B --> C''"
proof -
  obtain g where g: "Graph_init example_env abc_nodes abc_edges = Inr g"
    and ids: "map vid (vertices g) = [''A'', ''B'', ''C'']"
    and con: "connections g = [(0, 1), (1, 2)]"
    and r: "Graph_repr g =
         ''Graph:\<newline>Nodes: ['' @ [CHR 0x27] @ ''A'' @ [CHR 0x27] @ '', '' @ [CHR 0x27] @ ''B''
         @ [CHR 0x27] @ '', '' @ [CHR 0x27] @ ''C'' @ [CHR 0x27]
         @ '']\<newline>Connections:\<newline>A --> B\<newline>B --> C''"
    by (simp add: eval_defs Graph_repr_def edge_line_def list_repr_def str_repr_def
        repr_quote_def repr_char_def printable_def Let_def connections_def)
  obtain g' where g': "Graph_init example_env abc_nodes [mk_edge ''B'' ''C'', mk_edge ''A'' ''B''] = Inr g'"
    and ids': "map vid (vertices g') = [''A'', ''B'', ''C'']"
    and con': "connections g' = [(1, 2), (0, 1)]"
    by (simp add: eval_defs connections_def)
  have "\<forall>s\<in>set (map vid (vertices g)) \<union> set (map vid (vertices g')). plain_id s"
    unfolding ids ids' by (simp add: plain_id_def)
  then have plain: "\<forall>v\<in>set (vertices g) \<union> set (vertices g'). plain_id (vid v)" by auto
  note main = Graph_eq_is_repr_equality[of g g' example_env abc_nodes abc_edges example_env
      abc_nodes "[mk_edge ''B'' ''C'', mk_edge ''A'' ''B'']"]
  from main[THEN conjunct2, THEN conjunct2, THEN conjunct2, THEN conjunct2, THEN conjunct2,
      rule_format, OF conjI[OF g conjI[OF g' plain]]]
  have ne: "\<not> Graph_eq g (GraphObject g')" by (simp add: con con')
  from Graph_eq_is_repr_equality[of g g example_env abc_nodes abc_edges,
      THEN conjunct2, THEN conjunct2, THEN conjunct2, THEN conjunct2, THEN conjunct1,
      rule_format, OF conjI[OF g g]]
  have eq: "Graph_eq g (GraphObject g)" .
  show ?thesis
    by (intro exI[of _ g] exI[of _ g'] conjI) (fact g g' eq ne r)+
qed

end
